theory Spec2Isabelle
  imports Main "HOL-Library.Sublist"
begin

section \<open>Strings and the JavaScript string operations the generator uses\<close>

text \<open>
  A JavaScript string is modelled as a \<open>string\<close> (a list of characters), and the texts
  of the model are ASCII texts. The code under study only concatenates strings, searches
  them for a marker and changes the case of field names. Case conversion is modelled on
  the ASCII letters and leaves every other character as it is, which is what
  \<open>toUpperCase\<close> and \<open>toLowerCase\<close> do on ASCII input; JavaScript also converts letters
  outside ASCII, which the model does not have.
\<close>

definition lower_letters :: string where
  "lower_letters = ''abcdefghijklmnopqrstuvwxyz''"

definition upper_letters :: string where
  "upper_letters = ''ABCDEFGHIJKLMNOPQRSTUVWXYZ''"

definition upper_char :: "char \<Rightarrow> char" where
  "upper_char c = (case map_of (zip lower_letters upper_letters) c of Some u \<Rightarrow> u | None \<Rightarrow> c)"

definition lower_char :: "char \<Rightarrow> char" where
  "lower_char c = (case map_of (zip upper_letters lower_letters) c of Some l \<Rightarrow> l | None \<Rightarrow> c)"

definition toUpperCase :: "string \<Rightarrow> string" where
  "toUpperCase s = map upper_char s"

definition toLowerCase :: "string \<Rightarrow> string" where
  "toLowerCase s = map lower_char s"

text \<open>
  \<open>s.indexOf(pat)\<close>: the position of the first occurrence of \<open>pat\<close> in \<open>s\<close>, if any.
\<close>

fun indexOf :: "string \<Rightarrow> string \<Rightarrow> nat option" where
  "indexOf [] pat = (if pat = [] then Some 0 else None)"
| "indexOf (c # cs) pat =
     (if prefix pat (c # cs) then Some 0 else map_option Suc (indexOf cs pat))"

text \<open>
  \<open>GetSubstitution\<close> of ECMAScript for a string pattern (no capture groups): in the
  replacement text \<open>$$\<close> stands for a dollar sign, \<open>$&\<close> for the matched text,
  \<open>$`\<close> for the text before the match and \<open>$'\<close> for the text after it. A dollar
  sign followed by anything else is kept as it is.
\<close>

fun getSubstitution :: "string \<Rightarrow> string \<Rightarrow> nat \<Rightarrow> string \<Rightarrow> string" where
  "getSubstitution matched str pos [] = []"
| "getSubstitution matched str pos [c] = [c]"
| "getSubstitution matched str pos (c # d # r) =
     (if c = CHR ''$'' then
        (if d = CHR ''$'' then CHR ''$'' # getSubstitution matched str pos r
         else if d = CHR ''&'' then matched @ getSubstitution matched str pos r
         else if d = CHR 0x60 then take pos str @ getSubstitution matched str pos r
         else if d = CHR 0x27 then
           drop (min (pos + length matched) (length str)) str @ getSubstitution matched str pos r
         else c # getSubstitution matched str pos (d # r))
      else c # getSubstitution matched str pos (d # r))"

text \<open>
  \<open>s.replace(pat, rep)\<close> with a string pattern: only the first occurrence of \<open>pat\<close> is
  replaced, by the expansion of \<open>rep\<close>; a string without the pattern is returned as it is.
\<close>

definition js_replace :: "string \<Rightarrow> string \<Rightarrow> string \<Rightarrow> string" where
  "js_replace s pat rep =
     (case indexOf s pat of
        None \<Rightarrow> s
      | Some pos \<Rightarrow> take pos s @ getSubstitution pat s pos rep @ drop (pos + length pat) s)"

section \<open>Objects used as dictionaries\<close>

text \<open>
  \<open>TemplateVariables\<close> is an object used as a dictionary from placeholder names to
  texts. It is modelled as an association list with distinct keys, in the order in which
  \<open>for ... in\<close> enumerates the properties: for names that are not array indices this is
  the order in which the properties were first assigned. The names used as keys are taken
  to be neither array indices, which JavaScript enumerates first, nor \<open>__proto__\<close>, which
  it does not store as a property.
\<close>

type_synonym TemplateVariables = "(string \<times> string) list"

fun obj_set :: "'k \<Rightarrow> 'v \<Rightarrow> ('k \<times> 'v) list \<Rightarrow> ('k \<times> 'v) list" where
  "obj_set k v [] = [(k, v)]"
| "obj_set k v ((k', v') # ps) = (if k' = k then (k, v) # ps else (k', v') # obj_set k v ps)"

definition obj_get :: "('k \<times> 'v) list \<Rightarrow> 'k \<Rightarrow> 'v option" where
  "obj_get obj k = map_of obj k"

definition obj_keys :: "('k \<times> 'v) list \<Rightarrow> 'k list" where
  "obj_keys obj = map fst obj"

text \<open>The object spread \<open>{...a, ...b}\<close>: the properties of \<open>a\<close>, then those of \<open>b\<close> assigned over them.\<close>

definition obj_spread :: "('k \<times> 'v) list \<Rightarrow> ('k \<times> 'v) list \<Rightarrow> ('k \<times> 'v) list" where
  "obj_spread a b = foldl (\<lambda>obj (k, v). obj_set k v obj) a b"

section \<open>The Variable Generator\<close>

record CodeBuilder =
  extensionUri :: string
  objectApiName :: string
  fieldNames :: "string list"
  templateVariables :: TemplateVariables

text \<open>The six texts that \<open>generateTemplateVariables\<close> accumulates over the field names.\<close>

record accumulators =
  acc_fields :: string
  acc_imports :: string
  acc_createFieldsHtml :: string
  acc_editFieldsHtml :: string
  acc_importAliases :: string
  acc_variableAssignments :: string

definition NL :: string where "NL = [CHR 0x0A]"
definition TAB :: string where "TAB = [CHR 0x09]"
definition DQ :: string where "DQ = [CHR 0x22]"

definition field_step :: "string \<Rightarrow> accumulators \<Rightarrow> string \<Rightarrow> accumulators" where
  "field_step apiName a field =
     (let fieldNameImport = toUpperCase field @ ''_FIELD'';
          fieldNameVariable = toLowerCase field @ ''Field''
      in \<lparr> acc_fields = acc_fields a @ fieldNameImport @ '', '',
           acc_imports = acc_imports a @ ''import '' @ fieldNameImport @ '' from '' @ DQ
             @ ''@salesforce/schema/'' @ apiName @ ''.'' @ field @ DQ @ '';'' @ NL,
           acc_createFieldsHtml = acc_createFieldsHtml a
             @ ''<lightning-input-field field-name={'' @ fieldNameVariable @ ''} value={''
             @ toLowerCase field @ ''}></lightning-input-field>'' @ NL @ TAB @ TAB @ TAB @ TAB,
           acc_editFieldsHtml = acc_editFieldsHtml a
             @ ''<lightning-input-field field-name={'' @ fieldNameVariable
             @ ''}></lightning-input-field>'' @ NL @ TAB @ TAB @ TAB @ TAB,
           acc_importAliases = acc_importAliases a
             @ fieldNameVariable @ '' = '' @ fieldNameImport @ '';'' @ NL @ TAB,
           acc_variableAssignments = acc_variableAssignments a
             @ toLowerCase field @ '' = '' @ DQ @ DQ @ '';'' @ NL @ TAB \<rparr>)"

definition empty_accumulators :: accumulators where
  "empty_accumulators =
     \<lparr> acc_fields = [], acc_imports = [], acc_createFieldsHtml = [],
       acc_editFieldsHtml = [], acc_importAliases = [], acc_variableAssignments = [] \<rparr>"

definition generateTemplateVariables :: "CodeBuilder \<Rightarrow> CodeBuilder" where
  "generateTemplateVariables this =
     (let n = objectApiName this;
          tv0 = templateVariables this;
          tv1 = obj_set ''TEMPLATE_OBJECT_API_NAME'' n tv0;
          tv2 = obj_set ''TEMPLATE_CREATE_LWC_LABEL''
                  (''LWC for creating a/an '' @ n @ '' instance.'') tv1;
          tv3 = obj_set ''TEMPLATE_EDIT_LWC_LABEL''
                  (''LWC for editing a/an '' @ n @ '' instance.'') tv2;
          tv4 = obj_set ''TEMPLATE_VIEW_LWC_LABEL''
                  (''LWC for viewing a/an '' @ n @ '' instance.'') tv3;
          a = foldl (field_step n) empty_accumulators (fieldNames this);
          tv5 = obj_set ''TEMPLATE_FIELDS'' (acc_fields a) tv4;
          tv6 = obj_set ''TEMPLATE_IMPORTS'' (acc_imports a) tv5;
          tv7 = obj_set ''TEMPLATE_LIGHTNING_INPUT_CREATE_FIELDS_HTML'' (acc_createFieldsHtml a) tv6;
          tv8 = obj_set ''TEMPLATE_LIGHTNING_INPUT_EDIT_FIELDS_HTML'' (acc_editFieldsHtml a) tv7;
          tv9 = obj_set ''TEMPLATE_VARIABLES'' (acc_importAliases a) tv8;
          tv10 = obj_set ''TEMPLATE_VARIABLE_ASSIGNMENTS'' (acc_variableAssignments a) tv9
      in this\<lparr>templateVariables := tv10\<rparr>)"

text \<open>The constructor: it stores its arguments and fills \<open>templateVariables\<close>, which starts empty.\<close>

definition new_CodeBuilder :: "string \<Rightarrow> string \<Rightarrow> string list \<Rightarrow> CodeBuilder" where
  "new_CodeBuilder uri apiName fieldList =
     generateTemplateVariables
       \<lparr> extensionUri = uri, objectApiName = apiName, fieldNames = fieldList,
         templateVariables = [] \<rparr>"

text \<open>The ten placeholder names the constructor fills, in the order of their assignment.\<close>

definition fixed_keys :: "string list" where
  "fixed_keys =
     [''TEMPLATE_OBJECT_API_NAME'', ''TEMPLATE_CREATE_LWC_LABEL'', ''TEMPLATE_EDIT_LWC_LABEL'',
      ''TEMPLATE_VIEW_LWC_LABEL'', ''TEMPLATE_FIELDS'', ''TEMPLATE_IMPORTS'',
      ''TEMPLATE_LIGHTNING_INPUT_CREATE_FIELDS_HTML'', ''TEMPLATE_LIGHTNING_INPUT_EDIT_FIELDS_HTML'',
      ''TEMPLATE_VARIABLES'', ''TEMPLATE_VARIABLE_ASSIGNMENTS'']"

definition accumulator_keys :: "string list" where
  "accumulator_keys = drop 4 fixed_keys"

section \<open>The Template Renderer\<close>

text \<open>A value thrown by JavaScript code.\<close>

datatype js_error = TypeError string | FsError string

text \<open>
  \<open>templateVariables.hasOwnProperty(key)\<close>. The method is looked up on the object itself
  first: a dictionary with an entry named \<open>hasOwnProperty\<close> shadows the inherited method
  with a string, and calling it throws a \<open>TypeError\<close>.
\<close>

definition hasOwnProperty :: "TemplateVariables \<Rightarrow> string \<Rightarrow> js_error + bool" where
  "hasOwnProperty obj key =
     (if ''hasOwnProperty'' \<in> set (obj_keys obj)
      then Inl (TypeError ''templateVariables.hasOwnProperty is not a function'')
      else Inr (key \<in> set (obj_keys obj)))"

definition marker :: "string \<Rightarrow> string" where
  "marker key = ''///'' @ key @ ''///''"

text \<open>
  The loop of \<open>replaceAllTemplateVariables\<close> over the keys still to be visited. A key
  without a value would be replaced by the text \<open>undefined\<close>.
\<close>

fun replace_loop :: "TemplateVariables \<Rightarrow> string list \<Rightarrow> string \<Rightarrow> js_error + string" where
  "replace_loop tv [] newFileContents = Inr newFileContents"
| "replace_loop tv (key # keys) newFileContents =
     (case hasOwnProperty tv key of
        Inl e \<Rightarrow> Inl e
      | Inr own \<Rightarrow>
          if own then
            (let v = (case obj_get tv key of Some x \<Rightarrow> x | None \<Rightarrow> ''undefined'')
             in replace_loop tv keys (js_replace newFileContents (marker key) v))
          else replace_loop tv keys newFileContents)"

definition replaceAllTemplateVariables :: "string \<Rightarrow> TemplateVariables \<Rightarrow> js_error + string" where
  "replaceAllTemplateVariables contents tv = replace_loop tv (obj_keys tv) contents"

section \<open>The file system and the environment\<close>

text \<open>
  The project tree is a map from paths to nodes. \<open>console\<close> collects the lines the code
  logs. \<open>op_trace\<close> is a ghost field: each generation operation records its name and its
  entity there when it starts, so that theorems can speak of the operations a run
  invokes; no operation reads it.
\<close>

datatype node = File string | Directory

record world =
  nodes :: "string \<Rightarrow> node option"
  console :: "string list"
  op_trace :: "(string \<times> string) list"

text \<open>
  What the code cannot control: the content of the template store (the outcome of reading
  each template path), the operations of the file system that fail (as a function of the
  path), the outcome of \<open>WorkspaceUtils.getStaticResourcesDir\<close> (the directory, or the
  error its promise is rejected with), and the outcome of loading the object names from
  the landing page, which is the work of \<open>access\<close>, \<open>CommonUtils\<close> and \<open>UEMParser\<close>.
\<close>

record env =
  template_store :: "string \<Rightarrow> js_error + string"
  mkdir_fails :: "string \<Rightarrow> bool"
  write_fails :: "string \<Rightarrow> bool"
  stat_fails :: "string \<Rightarrow> bool"
  static_resources_dir :: "js_error + string"
  landing_page :: "string + string list"

text \<open>
  \<open>path.join\<close> and \<open>path.normalize\<close> of Node.js, for POSIX paths. \<open>split_slash\<close> cuts a
  path at its slashes and \<open>join_slash\<close> puts segments together again.
  \<open>normalizeString\<close> goes through the segments from left to right and keeps the list
  of the segments of its result: an empty segment and \<open>.\<close> are dropped, \<open>..\<close> removes the
  last segment kept unless there is none or it is \<open>..\<close> itself, in which case \<open>..\<close> is
  kept when the path is relative. \<open>path.join\<close> drops its empty arguments, joins the
  others with slashes and normalises the result.
\<close>

fun split_slash :: "string \<Rightarrow> string list" where
  "split_slash [] = [[]]"
| "split_slash (c # cs) =
     (if c = CHR ''/'' then [] # split_slash cs
      else (case split_slash cs of [] \<Rightarrow> [[c]] | x # xs \<Rightarrow> (c # x) # xs))"

fun join_slash :: "string list \<Rightarrow> string" where
  "join_slash [] = []"
| "join_slash [x] = x"
| "join_slash (x # y # zs) = x @ CHR ''/'' # join_slash (y # zs)"

definition normalize_step :: "bool \<Rightarrow> string list \<Rightarrow> string \<Rightarrow> string list" where
  "normalize_step allowAboveRoot res seg =
     (if seg = [] \<or> seg = ''.'' then res
      else if seg = ''..'' then
        (if res \<noteq> [] \<and> last res \<noteq> ''..'' then butlast res
         else if allowAboveRoot then res @ [''..''] else res)
      else res @ [seg])"

definition normalizeString :: "string \<Rightarrow> bool \<Rightarrow> string list" where
  "normalizeString path allowAboveRoot =
     foldl (normalize_step allowAboveRoot) [] (split_slash path)"

definition path_normalize :: "string \<Rightarrow> string" where
  "path_normalize path =
     (if path = [] then ''.''
      else (let isAbsolute = (hd path = CHR ''/'');
                trailingSeparator = (last path = CHR ''/'');
                res = join_slash (normalizeString path (\<not> isAbsolute))
            in if res = [] then
                 (if isAbsolute then ''/'' else if trailingSeparator then ''./'' else ''.'')
               else (if isAbsolute then ''/'' else []) @ res
                    @ (if trailingSeparator then ''/'' else [])))"

definition path_join :: "string \<Rightarrow> string \<Rightarrow> string" where
  "path_join a b =
     (let joined = join_slash (filter (\<lambda>arg. arg \<noteq> []) [a, b])
      in if joined = [] then ''.'' else path_normalize joined)"

definition path_join3 :: "string \<Rightarrow> string \<Rightarrow> string \<Rightarrow> string" where
  "path_join3 a b c =
     (let joined = join_slash (filter (\<lambda>arg. arg \<noteq> []) [a, b, c])
      in if joined = [] then ''.'' else path_normalize joined)"

text \<open>
  \<open>Uri.joinPath\<close> joins the path of a URI with a fragment in the same way. The URI of
  the extension is represented by its path, which is not empty.
\<close>

definition uri_joinPath :: "string \<Rightarrow> string \<Rightarrow> string" where
  "uri_joinPath uri p = path_join uri p"

text \<open>
  The directories above a path, from the outermost: \<open>a\<close> and \<open>a/b\<close> for \<open>a/b/c\<close>.
\<close>

definition ancestors :: "string \<Rightarrow> string list" where
  "ancestors p =
     filter (\<lambda>q. q \<noteq> [])
       (map (\<lambda>i. join_slash (take i (split_slash p))) [1..<length (split_slash p)])"

text \<open>A computation that may change the world and may throw.\<close>

type_synonym 'a io = "world \<Rightarrow> (js_error + 'a) \<times> world"

definition io_return :: "'a \<Rightarrow> 'a io" where
  "io_return x = (\<lambda>w. (Inr x, w))"

definition io_throw :: "js_error \<Rightarrow> 'a io" where
  "io_throw e = (\<lambda>w. (Inl e, w))"

definition io_bind :: "'a io \<Rightarrow> ('a \<Rightarrow> 'b io) \<Rightarrow> 'b io" where
  "io_bind m f = (\<lambda>w. case m w of (Inl e, w') \<Rightarrow> (Inl e, w') | (Inr x, w') \<Rightarrow> f x w')"

definition try_catch :: "'a io \<Rightarrow> (js_error \<Rightarrow> 'a io) \<Rightarrow> 'a io" where
  "try_catch m h = (\<lambda>w. case m w of (Inl e, w') \<Rightarrow> h e w' | (Inr x, w') \<Rightarrow> (Inr x, w'))"

definition io_lift :: "js_error + 'a \<Rightarrow> 'a io" where
  "io_lift r = (\<lambda>w. (r, w))"

fun io_forEach :: "'a list \<Rightarrow> ('a \<Rightarrow> unit io) \<Rightarrow> unit io" where
  "io_forEach [] f = io_return ()"
| "io_forEach (x # xs) f = io_bind (f x) (\<lambda>_. io_forEach xs f)"

definition console_log :: "string \<Rightarrow> unit io" where
  "console_log msg = (\<lambda>w. (Inr (), w\<lparr>console := console w @ [msg]\<rparr>))"

definition fs_readFileSync :: "env \<Rightarrow> string \<Rightarrow> string io" where
  "fs_readFileSync e p = io_lift (template_store e p)"

definition fs_existsSync :: "world \<Rightarrow> string \<Rightarrow> bool" where
  "fs_existsSync w p = (nodes w (path_normalize p) \<noteq> None)"

text \<open>
  The file system finds the node of a path by its normal form, so that \<open>./a/b\<close> and
  \<open>a/b\<close> name the same node. Which operations fail is the choice of the environment, by
  path: the oracles \<open>mkdir_fails\<close>, \<open>write_fails\<close> and \<open>stat_fails\<close> stand for every cause
  of failure. \<open>mkdirSync\<close> is called with \<open>recursive: true\<close>: it creates the directory and
  the ancestors of it that are missing.
\<close>

definition mkdir_recursive :: "string \<Rightarrow> (string \<Rightarrow> node option) \<Rightarrow> (string \<Rightarrow> node option)" where
  "mkdir_recursive d ns =
     (\<lambda>q. if q \<in> set (ancestors d @ [d]) \<and> ns q = None then Some Directory else ns q)"

definition fs_mkdirSync :: "env \<Rightarrow> string \<Rightarrow> unit io" where
  "fs_mkdirSync e p =
     (\<lambda>w. if mkdir_fails e (path_normalize p) then (Inl (FsError ''mkdir''), w)
          else (Inr (), w\<lparr>nodes := mkdir_recursive (path_normalize p) (nodes w)\<rparr>))"

definition fs_writeFileSync :: "env \<Rightarrow> string \<Rightarrow> string \<Rightarrow> unit io" where
  "fs_writeFileSync e p content =
     (\<lambda>w. if write_fails e (path_normalize p) then (Inl (FsError ''write''), w)
          else (Inr (), w\<lparr>nodes := (nodes w)(path_normalize p \<mapsto> File content)\<rparr>))"

record stats =
  isFile :: bool

definition fs_statSync :: "env \<Rightarrow> world \<Rightarrow> string \<Rightarrow> js_error + stats" where
  "fs_statSync e w p =
     (if stat_fails e (path_normalize p) then Inl (FsError ''stat'')
      else (case nodes w (path_normalize p) of
              None \<Rightarrow> Inl (FsError ''ENOENT'')
            | Some (File c) \<Rightarrow> Inr \<lparr>isFile = True\<rparr>
            | Some Directory \<Rightarrow> Inr \<lparr>isFile = False\<rparr>))"

section \<open>The Generation Orchestrator\<close>

definition TEMPLATE_DIR :: string where
  "TEMPLATE_DIR = ''./resources/templates''"

definition QUICK_ACTION_TEMPLATE_NAME :: string where
  "QUICK_ACTION_TEMPLATE_NAME = ''quickAction.xml''"

definition LWC_DESTINATION_DIR :: string where
  "LWC_DESTINATION_DIR = ''./force-app/main/default/lwc''"

definition QA_DESTINATION_DIR :: string where
  "QA_DESTINATION_DIR = ''./force-app/main/default/quickActions''"

definition TEMPLATE_FILE_EXTENSIONS :: "string list" where
  "TEMPLATE_FILE_EXTENSIONS = [''css'', ''html'', ''js'', ''js-meta.xml'']"

definition readFileContents :: "env \<Rightarrow> CodeBuilder \<Rightarrow> string \<Rightarrow> string io" where
  "readFileContents e this filePath =
     try_catch (fs_readFileSync e (uri_joinPath (extensionUri this) filePath))
       (\<lambda>err. io_bind (console_log (''Could not read file '' @ filePath)) (\<lambda>_. io_return []))"

definition writeFileContents :: "env \<Rightarrow> string \<Rightarrow> string \<Rightarrow> string \<Rightarrow> unit io" where
  "writeFileContents e dirPath filename content =
     (let write_the_file =
            try_catch (fs_writeFileSync e (path_join dirPath filename) content)
              (\<lambda>err. console_log (''Error writing to file '' @ path_join dirPath filename))
      in (\<lambda>w. if \<not> fs_existsSync w dirPath then
                (case fs_mkdirSync e dirPath w of
                   (Inl err, w') \<Rightarrow> console_log (''Unable to create directory: '' @ dirPath) w'
                 | (Inr u, w') \<Rightarrow> write_the_file w')
              else write_the_file w))"

definition copyTemplateFiles :: "env \<Rightarrow> CodeBuilder \<Rightarrow> string \<Rightarrow> string \<Rightarrow> unit io" where
  "copyTemplateFiles e this template destinationLwc =
     io_forEach TEMPLATE_FILE_EXTENSIONS (\<lambda>extension.
       io_bind (readFileContents e this
                  (path_join3 TEMPLATE_DIR template (template @ ''.'' @ extension)))
         (\<lambda>fileContents.
       io_bind (io_lift (replaceAllTemplateVariables fileContents (templateVariables this)))
         (\<lambda>newFileContents.
       writeFileContents e (path_join LWC_DESTINATION_DIR destinationLwc)
         (destinationLwc @ ''.'' @ extension) newFileContents)))"

text \<open>
  The label of a quick action is one of the words View, Edit and Create, on which
  \<open>toLocaleLowerCase\<close> is \<open>toLowerCase\<close> in every locale. A dictionary without the
  name of the object would give the text \<open>undefined\<close> in the name of the file.
\<close>

definition createQuickAction :: "env \<Rightarrow> CodeBuilder \<Rightarrow> string \<Rightarrow> string \<Rightarrow> string \<Rightarrow> unit io" where
  "createQuickAction e this label lwcName iconName =
     io_bind (readFileContents e this (path_join TEMPLATE_DIR QUICK_ACTION_TEMPLATE_NAME))
       (\<lambda>fileContents.
     let qa1 = obj_set ''TEMPLATE_QUICK_ACTION_LABEL'' label [];
         qa2 = obj_set ''TEMPLATE_LWC_NAME'' lwcName qa1;
         quickActionVariables =
           (if iconName \<noteq> [] then
              obj_set ''TEMPLATE_QUICK_ACTION_ICON'' (''<icon>'' @ iconName @ ''</icon>'') qa2
            else obj_set ''TEMPLATE_QUICK_ACTION_ICON'' [] qa2)
     in io_bind (io_lift (replaceAllTemplateVariables fileContents
                   (obj_spread (templateVariables this) quickActionVariables)))
       (\<lambda>newFileContents.
     let apiName = (case obj_get (templateVariables this) ''TEMPLATE_OBJECT_API_NAME'' of
                      Some n \<Rightarrow> n | None \<Rightarrow> ''undefined'');
         destinationFile = apiName @ ''.'' @ toLowerCase label @ ''.quickAction-meta.xml''
     in writeFileContents e QA_DESTINATION_DIR destinationFile newFileContents))"

text \<open>
  A promise is resolved, rejected or still pending. The generation operations build
  theirs with \<open>new Promise(async (resolve) => ...)\<close>: the promise resolves when the body
  reaches \<open>resolve\<close>; when the body throws before that, nothing settles the promise and
  it stays pending for ever.
\<close>

datatype 'a promise = Resolved 'a | Rejected js_error | Pending

definition promise_of_executor :: "'a io \<Rightarrow> world \<Rightarrow> 'a promise \<times> world" where
  "promise_of_executor body w =
     (case body w of (Inr x, w') \<Rightarrow> (Resolved x, w') | (Inl e, w') \<Rightarrow> (Pending, w'))"

definition started :: "string \<Rightarrow> CodeBuilder \<Rightarrow> unit io" where
  "started opName this =
     (\<lambda>w. (Inr (), w\<lparr>op_trace := op_trace w @ [(opName, objectApiName this)]\<rparr>))"

definition generateView :: "env \<Rightarrow> CodeBuilder \<Rightarrow> world \<Rightarrow> bool promise \<times> world" where
  "generateView e this =
     promise_of_executor
       (io_bind (started ''generateView'' this) (\<lambda>_.
        let lwcName = ''view'' @ objectApiName this @ ''Record'' in
        io_bind (copyTemplateFiles e this ''viewRecord'' lwcName) (\<lambda>_.
        io_bind (createQuickAction e this ''View'' lwcName []) (\<lambda>_.
        io_return True))))"

definition generateEdit :: "env \<Rightarrow> CodeBuilder \<Rightarrow> world \<Rightarrow> bool promise \<times> world" where
  "generateEdit e this =
     promise_of_executor
       (io_bind (started ''generateEdit'' this) (\<lambda>_.
        let lwcName = ''edit'' @ objectApiName this @ ''Record'' in
        io_bind (copyTemplateFiles e this ''editRecord'' lwcName) (\<lambda>_.
        io_bind (createQuickAction e this ''Edit'' lwcName ''editActionIcon'') (\<lambda>_.
        io_return True))))"

definition generateCreate :: "env \<Rightarrow> CodeBuilder \<Rightarrow> world \<Rightarrow> bool promise \<times> world" where
  "generateCreate e this =
     promise_of_executor
       (io_bind (started ''generateCreate'' this) (\<lambda>_.
        let lwcName = ''create'' @ objectApiName this @ ''Record'' in
        io_bind (copyTemplateFiles e this ''createRecord'' lwcName) (\<lambda>_.
        io_bind (createQuickAction e this ''Create'' lwcName []) (\<lambda>_.
        io_return True))))"

section \<open>The Reconciliation Driver\<close>

record QuickActionStatus =
  view :: bool
  edit :: bool
  create :: bool

record SObjectQuickActionStatus =
  error :: "string option"
  sobjects :: "(string \<times> QuickActionStatus) list"

record GetSObjectsStatus =
  gs_error :: "string option"
  gs_sobjects :: "string list"

text \<open>
  \<open>getSObjectsFromLandingPage\<close>: the object names of the landing page, or the message of
  the error met while loading them, with a warning on the console. The directory of the
  static resources is awaited before the \<open>try\<close>: when that promise is rejected the body
  throws, and the promise of this operation stays pending.
\<close>

definition getSObjectsFromLandingPage :: "env \<Rightarrow> world \<Rightarrow> GetSObjectsStatus promise \<times> world" where
  "getSObjectsFromLandingPage e w =
     (case static_resources_dir e of
        Inl err \<Rightarrow> (Pending, w)
      | Inr staticResourcesPath \<Rightarrow>
          (case landing_page e of
             Inr names \<Rightarrow> (Resolved \<lparr>gs_error = None, gs_sobjects = names\<rparr>, w)
           | Inl msg \<Rightarrow>
               (Resolved \<lparr>gs_error = Some msg, gs_sobjects = []\<rparr>,
                w\<lparr>console := console w @
                    [''File '' @ [CHR 0x27] @ ''landing_page.json'' @ [CHR 0x27]
                     @ '' does not exist at '' @ [CHR 0x27] @ staticResourcesPath
                     @ [CHR 0x27] @ ''.'']\<rparr>)))"

definition checkForExistingQuickAction :: "env \<Rightarrow> world \<Rightarrow> string \<Rightarrow> string \<Rightarrow> bool" where
  "checkForExistingQuickAction e w sobject qaName =
     (let expectedMetadataFilename = sobject @ ''.'' @ qaName @ ''.quickAction-meta.xml'' in
      case fs_statSync e w (''force-app/main/default/quickActions/'' @ expectedMetadataFilename) of
        Inr st \<Rightarrow> isFile st
      | Inl err \<Rightarrow> False)"

text \<open>
  Awaiting a promise inside an \<open>async\<close> executor: the body goes on with the value of a
  resolved promise; a pending promise never lets it go on, and a rejected one makes it
  throw, which leaves the promise of the executor pending as well.
\<close>

definition await :: "(world \<Rightarrow> 'a promise \<times> world) \<Rightarrow> ('a \<Rightarrow> world \<Rightarrow> 'b promise \<times> world)
    \<Rightarrow> world \<Rightarrow> 'b promise \<times> world" where
  "await m k w =
     (case m w of
        (Resolved x, w') \<Rightarrow> k x w'
      | (Rejected err, w') \<Rightarrow> (Pending, w')
      | (Pending, w') \<Rightarrow> (Pending, w'))"

text \<open>
  \<open>checkForExistingQuickActions\<close> declares no parameter: an argument passed to it is
  ignored, and the objects it probes are those of the landing page. An error message
  counts as an error when it is not the empty string.
\<close>

definition checkForExistingQuickActions :: "env \<Rightarrow> world \<Rightarrow> SObjectQuickActionStatus promise \<times> world" where
  "checkForExistingQuickActions e =
     await (getSObjectsFromLandingPage e) (\<lambda>sObjectsStatus w.
       if gs_error sObjectsStatus \<noteq> None \<and> gs_error sObjectsStatus \<noteq> Some [] then
         (Resolved \<lparr>error = gs_error sObjectsStatus, sobjects = []\<rparr>, w)
       else
         (Resolved \<lparr>error = None,
            sobjects = foldl (\<lambda>res sobject.
                obj_set sobject
                  \<lparr>view = checkForExistingQuickAction e w sobject ''view'',
                   edit = checkForExistingQuickAction e w sobject ''edit'',
                   create = checkForExistingQuickAction e w sobject ''create''\<rparr> res)
              [] (gs_sobjects sObjectsStatus)\<rparr>, w))"

text \<open>The body of the loop of \<open>generateMissingLwcsAndQuickActions\<close> for one entry of the input.\<close>

definition generate_for :: "env \<Rightarrow> string \<Rightarrow> string \<times> QuickActionStatus
    \<Rightarrow> world \<Rightarrow> unit promise \<times> world" where
  "generate_for e uri entry =
     (let sobject = fst entry; quickActions = snd entry in
      if \<not> create quickActions \<or> \<not> edit quickActions \<or> \<not> view quickActions then
        (let codeBuilder = new_CodeBuilder uri sobject [''Name'', ''AccountId''] in
         await (if \<not> view quickActions
                then await (generateView e codeBuilder) (\<lambda>_ w. (Resolved (), w))
                else (\<lambda>w. (Resolved (), w))) (\<lambda>_.
         await (if \<not> edit quickActions
                then await (generateEdit e codeBuilder) (\<lambda>_ w. (Resolved (), w))
                else (\<lambda>w. (Resolved (), w))) (\<lambda>_.
         (if \<not> create quickActions
          then await (generateCreate e codeBuilder) (\<lambda>_ w. (Resolved (), w))
          else (\<lambda>w. (Resolved (), w))))))
      else (\<lambda>w. (Resolved (), w)))"

fun generate_loop :: "env \<Rightarrow> string \<Rightarrow> (string \<times> QuickActionStatus) list
    \<Rightarrow> world \<Rightarrow> unit promise \<times> world" where
  "generate_loop e uri [] = (\<lambda>w. (Resolved (), w))"
| "generate_loop e uri (entry # entries) =
     await (generate_for e uri entry) (\<lambda>_. generate_loop e uri entries)"

definition generateMissingLwcsAndQuickActions :: "env \<Rightarrow> string \<Rightarrow> SObjectQuickActionStatus
    \<Rightarrow> world \<Rightarrow> SObjectQuickActionStatus promise \<times> world" where
  "generateMissingLwcsAndQuickActions e uri quickActionStatus =
     await (generate_loop e uri (sobjects quickActionStatus)) (\<lambda>_.
     await (checkForExistingQuickActions e) (\<lambda>newStatus w. (Resolved newStatus, w)))"

section \<open>Notions used to state and to prove the properties\<close>

text \<open>
  What \<open>replaceAllTemplateVariables\<close> returns when it does not throw: the replacements
  of its loop, one key after the other.
\<close>

definition render :: "string \<Rightarrow> TemplateVariables \<Rightarrow> string" where
  "render contents tv =
     foldl (\<lambda>acc key. js_replace acc (marker key)
                          (case obj_get tv key of Some x \<Rightarrow> x | None \<Rightarrow> ''undefined''))
       contents (obj_keys tv)"

text \<open>What \<open>readFileContents\<close> returns: the text of the template, or the empty text.\<close>

definition read_text :: "env \<Rightarrow> CodeBuilder \<Rightarrow> string \<Rightarrow> string" where
  "read_text e this filePath =
     (case template_store e (uri_joinPath (extensionUri this) filePath) of
        Inr c \<Rightarrow> c | Inl err \<Rightarrow> [])"

text \<open>
  The effect of \<open>writeFileContents\<close> on the tree, for the directory \<open>d\<close>, the path \<open>p\<close> of
  the file and its content \<open>c\<close>.
\<close>

definition write_nodes :: "env \<Rightarrow> string \<Rightarrow> string \<Rightarrow> string
    \<Rightarrow> (string \<Rightarrow> node option) \<Rightarrow> (string \<Rightarrow> node option)" where
  "write_nodes e d p c ns =
     (if ns d = None \<and> mkdir_fails e d then ns
      else (let ns1 = (if ns d = None then mkdir_recursive d ns else ns)
            in if write_fails e p then ns1 else ns1(p \<mapsto> File c)))"

text \<open>
  The lists of segments that \<open>normalizeString\<close> yields, read from the last segment: no
  segment is empty or \<open>.\<close> or holds a slash, and \<open>..\<close> stands only at the front of a
  relative path.
\<close>

fun stack_ok_rev :: "bool \<Rightarrow> string list \<Rightarrow> bool" where
  "stack_ok_rev a [] = True"
| "stack_ok_rev a (x # below) =
     (x \<noteq> [] \<and> x \<noteq> ''.'' \<and> CHR ''/'' \<notin> set x
      \<and> (x = ''..'' \<longrightarrow> a \<and> (below = [] \<or> hd below = ''..''))
      \<and> stack_ok_rev a below)"

definition stack_ok :: "bool \<Rightarrow> string list \<Rightarrow> bool" where
  "stack_ok a st = stack_ok_rev a (rev st)"

text \<open>
  \<open>performs m x T tr\<close>: from every world the computation \<open>m\<close> returns \<open>x\<close> without
  throwing, changes the tree by \<open>T\<close> and adds \<open>tr\<close> to the trace. \<open>resolves\<close> is the same
  for a computation that yields a promise.
\<close>

definition performs :: "'a io \<Rightarrow> 'a \<Rightarrow> ((string \<Rightarrow> node option) \<Rightarrow> (string \<Rightarrow> node option))
    \<Rightarrow> (string \<times> string) list \<Rightarrow> bool" where
  "performs m x T tr =
     (\<forall>w. \<exists>w'. m w = (Inr x, w') \<and> nodes w' = T (nodes w) \<and> op_trace w' = op_trace w @ tr)"

definition resolves :: "(world \<Rightarrow> 'a promise \<times> world) \<Rightarrow> 'a
    \<Rightarrow> ((string \<Rightarrow> node option) \<Rightarrow> (string \<Rightarrow> node option)) \<Rightarrow> (string \<times> string) list \<Rightarrow> bool" where
  "resolves m x T tr =
     (\<forall>w. \<exists>w'. m w = (Resolved x, w') \<and> nodes w' = T (nodes w) \<and> op_trace w' = op_trace w @ tr)"

text \<open>A builder whose dictionary does not shadow \<open>hasOwnProperty\<close>.\<close>

definition wellformed :: "CodeBuilder \<Rightarrow> bool" where
  "wellformed this = (''hasOwnProperty'' \<notin> set (obj_keys (templateVariables this)))"

text \<open>
  The write requests of one generation operation: for each file its directory, its path
  and its content, in the order of the calls of \<open>writeFileContents\<close>.
\<close>

definition quickActionVariables :: "string \<Rightarrow> string \<Rightarrow> string \<Rightarrow> TemplateVariables" where
  "quickActionVariables label lwcName iconName =
     [(''TEMPLATE_QUICK_ACTION_LABEL'', label), (''TEMPLATE_LWC_NAME'', lwcName),
      (''TEMPLATE_QUICK_ACTION_ICON'',
         if iconName \<noteq> [] then ''<icon>'' @ iconName @ ''</icon>'' else [])]"

definition lwc_request :: "env \<Rightarrow> CodeBuilder \<Rightarrow> string \<Rightarrow> string \<Rightarrow> string \<Rightarrow> string \<times> string \<times> string" where
  "lwc_request e this template lwcName extension =
     (path_normalize (path_join LWC_DESTINATION_DIR lwcName),
      path_normalize (path_join (path_join LWC_DESTINATION_DIR lwcName) (lwcName @ ''.'' @ extension)),
      render (read_text e this (path_join3 TEMPLATE_DIR template (template @ ''.'' @ extension)))
        (templateVariables this))"

definition qa_request :: "env \<Rightarrow> CodeBuilder \<Rightarrow> string \<Rightarrow> string \<Rightarrow> string \<Rightarrow> string \<times> string \<times> string" where
  "qa_request e this label lwcName iconName =
     (path_normalize QA_DESTINATION_DIR,
      path_normalize (path_join QA_DESTINATION_DIR
        ((case obj_get (templateVariables this) ''TEMPLATE_OBJECT_API_NAME'' of
            Some n \<Rightarrow> n | None \<Rightarrow> ''undefined'')
         @ ''.'' @ toLowerCase label @ ''.quickAction-meta.xml'')),
      render (read_text e this (path_join TEMPLATE_DIR QUICK_ACTION_TEMPLATE_NAME))
        (obj_spread (templateVariables this) (quickActionVariables label lwcName iconName)))"

definition requests :: "env \<Rightarrow> CodeBuilder \<Rightarrow> string \<Rightarrow> string \<Rightarrow> string \<Rightarrow> string
    \<Rightarrow> (string \<times> string \<times> string) list" where
  "requests e this template label lwcName iconName =
     map (lwc_request e this template lwcName) TEMPLATE_FILE_EXTENSIONS
     @ [qa_request e this label lwcName iconName]"

definition req_dir :: "string \<times> string \<times> string \<Rightarrow> string" where
  "req_dir r = fst r"

definition req_path :: "string \<times> string \<times> string \<Rightarrow> string" where
  "req_path r = fst (snd r)"

definition req_content :: "string \<times> string \<times> string \<Rightarrow> string" where
  "req_content r = snd (snd r)"

definition serve :: "env \<Rightarrow> string \<times> string \<times> string
    \<Rightarrow> (string \<Rightarrow> node option) \<Rightarrow> (string \<Rightarrow> node option)" where
  "serve e r = write_nodes e (fst r) (fst (snd r)) (snd (snd r))"

text \<open>Requests for distinct files, none of which is the directory of a request.\<close>

definition separate :: "(string \<times> string \<times> string) list \<Rightarrow> bool" where
  "separate rs = (distinct (map req_path rs) \<and> set (map req_path rs) \<inter> set (map req_dir rs) = {})"

text \<open>
  No request creates, among the ancestors of its directory, the directory of an earlier
  request.
\<close>

fun dirs_stay :: "(string \<times> string \<times> string) list \<Rightarrow> bool" where
  "dirs_stay [] = True"
| "dirs_stay (r # rs) =
     ((\<forall>r' \<in> set rs. req_dir r = req_dir r' \<or> req_dir r \<notin> set (ancestors (req_dir r')))
      \<and> dirs_stay rs)"

text \<open>A request that changes nothing any more when it is served.\<close>

definition settled :: "env \<Rightarrow> string \<times> string \<times> string \<Rightarrow> (string \<Rightarrow> node option) \<Rightarrow> bool" where
  "settled e r ns =
     (if ns (req_dir r) = None then mkdir_fails e (req_dir r)
      else write_fails e (req_path r) \<or> ns (req_path r) = Some (File (req_content r)))"

text \<open>The three generation operations, by kind.\<close>

datatype kind = View | Edit | Create

fun kindVerb :: "kind \<Rightarrow> string" where
  "kindVerb View = ''view''"
| "kindVerb Edit = ''edit''"
| "kindVerb Create = ''create''"

fun op_name :: "kind \<Rightarrow> string" where
  "op_name View = ''generateView''"
| "op_name Edit = ''generateEdit''"
| "op_name Create = ''generateCreate''"

fun generate :: "env \<Rightarrow> CodeBuilder \<Rightarrow> kind \<Rightarrow> world \<Rightarrow> bool promise \<times> world" where
  "generate e this View = generateView e this"
| "generate e this Edit = generateEdit e this"
| "generate e this Create = generateCreate e this"

fun kind_requests :: "env \<Rightarrow> CodeBuilder \<Rightarrow> kind \<Rightarrow> (string \<times> string \<times> string) list" where
  "kind_requests e this View =
     requests e this ''viewRecord'' ''View'' (''view'' @ objectApiName this @ ''Record'') []"
| "kind_requests e this Edit =
     requests e this ''editRecord'' ''Edit'' (''edit'' @ objectApiName this @ ''Record'') ''editActionIcon''"
| "kind_requests e this Create =
     requests e this ''createRecord'' ''Create'' (''create'' @ objectApiName this @ ''Record'') []"

text \<open>The paths of the five files of one operation, as the naming convention gives them.\<close>

definition lwc_dir :: "string \<Rightarrow> string" where
  "lwc_dir base = path_join LWC_DESTINATION_DIR base"

definition written_paths :: "kind \<Rightarrow> string \<Rightarrow> string list" where
  "written_paths k n =
     (let base = kindVerb k @ n @ ''Record'' in
      map (\<lambda>ext. path_join (lwc_dir base) (base @ ''.'' @ ext)) TEMPLATE_FILE_EXTENSIONS
      @ [path_join QA_DESTINATION_DIR (n @ ''.'' @ kindVerb k @ ''.quickAction-meta.xml'')])"

text \<open>
  The same five paths as the naming convention spells them, by plain concatenation: the
  files \<open>{kindVerb}{n}Record.{ext}\<close> in the subdirectory \<open>{kindVerb}{n}Record\<close> of the
  directory of the components, and \<open>{n}.{kindVerb}.quickAction-meta.xml\<close> in the directory
  of the quick actions.
\<close>

definition convention_paths :: "kind \<Rightarrow> string \<Rightarrow> string list" where
  "convention_paths k n =
     (let base = kindVerb k @ n @ ''Record'' in
      map (\<lambda>ext. ''force-app/main/default/lwc/'' @ base @ ''/'' @ base @ ''.'' @ ext)
        [''css'', ''html'', ''js'', ''js-meta.xml'']
      @ [''force-app/main/default/quickActions/'' @ n @ ''.'' @ kindVerb k
         @ ''.quickAction-meta.xml''])"

text \<open>
  The directories that the calls of \<open>mkdirSync\<close> of one operation can create: the two
  directories it writes into, and their ancestors.
\<close>

definition created_dirs :: "kind \<Rightarrow> string \<Rightarrow> string list" where
  "created_dirs k n =
     (let d = lwc_dir (kindVerb k @ n @ ''Record''); q = path_normalize QA_DESTINATION_DIR
      in ancestors d @ [d] @ ancestors q @ [q])"

text \<open>An environment in which no directory creation and no write fails.\<close>

definition no_failures :: "env \<Rightarrow> bool" where
  "no_failures e = ((\<forall>p. \<not> mkdir_fails e p) \<and> (\<forall>p. \<not> write_fails e p))"

text \<open>The operations the driver invokes for an entity with the given status, in order.\<close>

definition missing_ops :: "string \<Rightarrow> QuickActionStatus \<Rightarrow> (string \<times> string) list" where
  "missing_ops sobject qa =
     (if \<not> view qa then [(''generateView'', sobject)] else [])
     @ (if \<not> edit qa then [(''generateEdit'', sobject)] else [])
     @ (if \<not> create qa then [(''generateCreate'', sobject)] else [])"

text \<open>The status mapping that the probes of \<open>checkForExistingQuickActions\<close> build.\<close>

definition probe_all :: "env \<Rightarrow> world \<Rightarrow> string list \<Rightarrow> (string \<times> QuickActionStatus) list" where
  "probe_all e w names =
     foldl (\<lambda>res sobject.
        obj_set sobject
          \<lparr>view = checkForExistingQuickAction e w sobject ''view'',
           edit = checkForExistingQuickAction e w sobject ''edit'',
           create = checkForExistingQuickAction e w sobject ''create''\<rparr> res) [] names"

text \<open>A concrete environment and a concrete world, for the instances of the theorems.\<close>

definition example_env :: env where
  "example_env =
     \<lparr> template_store = (\<lambda>p. Inr ''<label>///TEMPLATE_QUICK_ACTION_LABEL///</label>''),
       mkdir_fails = (\<lambda>p. False), write_fails = (\<lambda>p. False), stat_fails = (\<lambda>p. False),
       static_resources_dir = Inr ''/project/force-app/main/default/staticresources'',
       landing_page = Inr [''Account''] \<rparr>"

definition empty_world :: world where
  "empty_world = \<lparr> nodes = (\<lambda>p. None), console = [], op_trace = [] \<rparr>"

text \<open>
  The shape of the texts on which the renderer leaves no marker. A text is \<open>clean\<close> when
  no slash stands at its start, at its end or next to another slash: the texts that the
  Variable Generator makes from plain names are clean. A text has \<open>no_triple\<close> when it
  holds no three slashes in a row.
\<close>

definition starts_slash :: "string \<Rightarrow> bool" where
  "starts_slash s = (case s of [] \<Rightarrow> False | x # xs \<Rightarrow> x = CHR ''/'')"

definition ends_slash :: "string \<Rightarrow> bool" where
  "ends_slash s = (s \<noteq> [] \<and> last s = CHR ''/'')"

primrec no_adj :: "string \<Rightarrow> bool" where
  "no_adj [] = True"
| "no_adj (x # s) = (\<not> (x = CHR ''/'' \<and> starts_slash s) \<and> no_adj s)"

definition clean :: "string \<Rightarrow> bool" where
  "clean s = (no_adj s \<and> \<not> starts_slash s \<and> \<not> ends_slash s)"

primrec no_triple :: "string \<Rightarrow> bool" where
  "no_triple [] = True"
| "no_triple (x # s) = (\<not> (x = CHR ''/'' \<and> prefix ''//'' s) \<and> no_triple s)"

text \<open>
  A text with a character that is not a slash and that occurs in none of the ten
  placeholder names.
\<close>

definition separator :: "string \<Rightarrow> bool" where
  "separator s = (\<exists>x \<in> set s. x \<noteq> CHR ''/'' \<and> x \<notin> set (concat fixed_keys))"

text \<open>
  A template given by its parts: the text before the first marker, and for each marker
  its key and the text that follows it.
\<close>

fun assemble :: "string \<Rightarrow> (string \<times> string) list \<Rightarrow> string" where
  "assemble c [] = c"
| "assemble c ((k, s) # ps) = c @ marker k @ assemble s ps"

text \<open>
  The texts of a template that the renderer handles well: the text before a marker and
  the text after it, put together, hold no three slashes in a row, so that no text does
  and taking a marker out brings no three slashes together; and a text between two
  markers has a separator. Two slashes in a row are allowed anywhere, also next to a
  marker.
\<close>

fun parts_ok :: "string \<Rightarrow> (string \<times> string) list \<Rightarrow> bool" where
  "parts_ok c [] = no_triple c"
| "parts_ok c ((k, s) # ps) =
     (no_triple (c @ s) \<and> (ps \<noteq> [] \<longrightarrow> separator s) \<and> parts_ok s ps)"

definition template_ok :: "string \<Rightarrow> (string \<times> string) list \<Rightarrow> bool" where
  "template_ok c ps =
     (parts_ok c ps \<and> distinct (map fst ps) \<and> set (map fst ps) \<subseteq> set fixed_keys)"

text \<open>Names without a slash and without a dollar sign.\<close>

definition plain_name :: "string \<Rightarrow> bool" where
  "plain_name s = (CHR ''/'' \<notin> set s \<and> CHR ''$'' \<notin> set s)"

text \<open>
  The parts of the text in which the marker of the key \<open>k\<close>, if there is one, has
  been replaced by \<open>v\<close>: the marker goes, and the texts before and after it are joined
  around \<open>v\<close>.
\<close>

fun fill :: "string \<Rightarrow> (string \<times> string) list \<Rightarrow> string \<Rightarrow> string
    \<Rightarrow> string \<times> (string \<times> string) list" where
  "fill c [] k v = (c, [])"
| "fill c ((k', s) # ps) k v =
     (if k' = k then (c @ v @ s, ps)
      else (c, (k', fst (fill s ps k v)) # snd (fill s ps k v)))"

text \<open>The number of occurrences of a pattern in a text.\<close>

fun occurrences :: "string \<Rightarrow> string \<Rightarrow> nat" where
  "occurrences [] pat = 0"
| "occurrences (c # cs) pat = (if prefix pat (c # cs) then 1 else 0) + occurrences cs pat"

text \<open>The placeholder keys whose marker is still in the text that the renderer returns.\<close>

definition remaining_markers :: "string \<Rightarrow> TemplateVariables \<Rightarrow> string list" where
  "remaining_markers contents tv =
     (case replaceAllTemplateVariables contents tv of
        Inr out \<Rightarrow> filter (\<lambda>k. indexOf out (marker k) \<noteq> None) fixed_keys
      | Inl err \<Rightarrow> [])"

text \<open>
  A template in which each of the ten markers occurs once, one of them after a text with
  which the name put in its place makes up another marker.
\<close>

definition junction_template :: string where
  "junction_template =
     ''///TEMPLATE_///TEMPLATE_OBJECT_API_NAME////// ///TEMPLATE_CREATE_LWC_LABEL///''
     @ '' ///TEMPLATE_EDIT_LWC_LABEL/// ///TEMPLATE_VIEW_LWC_LABEL/// ///TEMPLATE_FIELDS///''
     @ '' ///TEMPLATE_IMPORTS/// ///TEMPLATE_LIGHTNING_INPUT_CREATE_FIELDS_HTML///''
     @ '' ///TEMPLATE_LIGHTNING_INPUT_EDIT_FIELDS_HTML/// ///TEMPLATE_VARIABLES///''
     @ '' ///TEMPLATE_VARIABLE_ASSIGNMENTS///''"

text \<open>
  A template in which each of the ten markers occurs once and no text holds a slash; the
  text between the first two markers is part of a placeholder name, and nothing stands
  between the second and the third.
\<close>

definition tight_template :: string where
  "tight_template =
     ''///TEMPLATE_IMPORTS///TEMPLATE_///TEMPLATE_OBJECT_API_NAME//////TEMPLATE_VARIABLES///''
     @ '' ///TEMPLATE_CREATE_LWC_LABEL/// ///TEMPLATE_EDIT_LWC_LABEL///''
     @ '' ///TEMPLATE_VIEW_LWC_LABEL/// ///TEMPLATE_FIELDS///''
     @ '' ///TEMPLATE_LIGHTNING_INPUT_CREATE_FIELDS_HTML///''
     @ '' ///TEMPLATE_LIGHTNING_INPUT_EDIT_FIELDS_HTML/// ///TEMPLATE_VARIABLE_ASSIGNMENTS///''"

text \<open>A template with the ten markers, each on a line of its own.\<close>

definition example_template_parts :: "(string \<times> string) list" where
  "example_template_parts = map (\<lambda>k. (k, [CHR 0x0A])) fixed_keys"

text \<open>
  Three templates of the usual kinds: metadata with a namespace address, whose text holds
  two slashes in a row; a script that starts and ends with a line comment; and a link in
  which slashes stand on both sides of a marker.
\<close>

definition metadata_template_parts :: "string \<times> (string \<times> string) list" where
  "metadata_template_parts =
     (''<b xmlns=http://x>'', [(''TEMPLATE_OBJECT_API_NAME'', ''</b>'')])"

definition script_template_parts :: "string \<times> (string \<times> string) list" where
  "script_template_parts =
     (''// fields of '',
      [(''TEMPLATE_OBJECT_API_NAME'', [CHR 0x0A] @ ''import { ''),
       (''TEMPLATE_FIELDS'', ''} from x; // end'')])"

definition link_template_parts :: "string \<times> (string \<times> string) list" where
  "link_template_parts =
     (''<a href=/lightning/o/'', [(''TEMPLATE_OBJECT_API_NAME'', ''/list>'')])"

text \<open>A clean text without a dollar sign; accumulators that hold such texts.\<close>

definition good :: "string \<Rightarrow> bool" where
  "good s = (clean s \<and> CHR ''$'' \<notin> set s)"

definition good_accumulators :: "accumulators \<Rightarrow> bool" where
  "good_accumulators a =
     (good (acc_fields a) \<and> good (acc_imports a) \<and> good (acc_createFieldsHtml a)
      \<and> good (acc_editFieldsHtml a) \<and> good (acc_importAliases a)
      \<and> good (acc_variableAssignments a))"

section \<open>Paths: properties\<close>

lemma split_slash_ne [simp]: "split_slash s \<noteq> []"
  by (induction s) (auto split: list.splits)

lemma split_slash_free: "x \<in> set (split_slash s) \<Longrightarrow> CHR ''/'' \<notin> set x"
  by (induction s arbitrary: x) (auto split: list.splits if_splits)

lemma split_append_slash: "split_slash (a @ CHR ''/'' # b) = split_slash a @ split_slash b"
  by (induction a) (auto split: list.splits)

lemma split_no_slash: "CHR ''/'' \<notin> set s \<Longrightarrow> split_slash s = [s]"
  by (induction s) auto

lemma split_append_free:
  "CHR ''/'' \<notin> set y \<Longrightarrow>
   split_slash (x @ y) = butlast (split_slash x) @ [last (split_slash x) @ y]"
proof (induction x)
  case Nil
  then show ?case by (simp add: split_no_slash)
next
  case (Cons c x)
  obtain u us where u: "split_slash x = u # us"
    by (cases "split_slash x") auto
  show ?case
  proof (cases "c = CHR ''/''")
    case True
    then show ?thesis using Cons by simp
  next
    case False
    obtain v vs where v: "split_slash (x @ y) = v # vs"
      by (cases "split_slash (x @ y)") auto
    show ?thesis
    proof (cases us)
      case Nil
      then show ?thesis using Cons False u v by simp
    next
      case (Cons a as)
      then show ?thesis using Cons.IH Cons.prems False u v by simp
    qed
  qed
qed

lemma join_split: "join_slash (split_slash s) = s"
proof (induction s)
  case Nil
  then show ?case by simp
next
  case (Cons c s)
  obtain u us where u: "split_slash s = u # us"
    by (cases "split_slash s") auto
  show ?case
  proof (cases "c = CHR ''/''")
    case True
    then show ?thesis using Cons u by simp
  next
    case False
    then show ?thesis using Cons u by (cases us) auto
  qed
qed

lemma join_snoc:
  "xs \<noteq> [] \<Longrightarrow> join_slash (xs @ [x]) = join_slash xs @ CHR ''/'' # x"
  by (induction xs rule: join_slash.induct) auto

lemma split_join:
  "xs \<noteq> [] \<Longrightarrow> \<forall>x \<in> set xs. CHR ''/'' \<notin> set x \<Longrightarrow> split_slash (join_slash xs) = xs"
proof (induction xs rule: rev_induct)
  case Nil
  then show ?case by simp
next
  case (snoc x xs)
  show ?case
  proof (cases "xs = []")
    case True
    then show ?thesis using snoc.prems by (simp add: split_no_slash)
  next
    case False
    then show ?thesis
      using snoc by (simp add: join_snoc split_append_slash split_no_slash)
  qed
qed
text \<open>The segments that normalisation keeps, and the lists of segments it yields.\<close>

lemma normalize_step_name:
  "seg \<noteq> [] \<Longrightarrow> seg \<noteq> ''.'' \<Longrightarrow> seg \<noteq> ''..'' \<Longrightarrow> normalize_step a res seg = res @ [seg]"
  by (simp add: normalize_step_def)

lemma normalizeString_snoc:
  assumes "split_slash s = xs @ [seg]" and "seg \<noteq> []" and "seg \<noteq> ''.''" and "seg \<noteq> ''..''"
  shows "normalizeString s a = foldl (normalize_step a) [] xs @ [seg]"
  using assms by (simp add: normalizeString_def normalize_step_name)

lemma stack_ok_Nil [simp]: "stack_ok a []"
  by (simp add: stack_ok_def)

lemma stack_ok_snoc:
  "stack_ok a (st @ [x]) =
     (x \<noteq> [] \<and> x \<noteq> ''.'' \<and> CHR ''/'' \<notin> set x
      \<and> (x = ''..'' \<longrightarrow> a \<and> (st = [] \<or> last st = ''..''))
      \<and> stack_ok a st)"
  by (simp add: stack_ok_def hd_rev)

lemma stack_ok_single:
  "stack_ok a [x] =
     (x \<noteq> [] \<and> x \<noteq> ''.'' \<and> CHR ''/'' \<notin> set x \<and> (x = ''..'' \<longrightarrow> a))"
  by (simp add: stack_ok_def)

lemma stack_ok_butlast: "stack_ok a st \<Longrightarrow> stack_ok a (butlast st)"
  by (cases st rule: rev_cases) (auto simp: stack_ok_snoc)

lemma stack_ok_append: "stack_ok a (st @ xs) \<Longrightarrow> stack_ok a st"
  by (induction xs rule: rev_induct) (auto simp: stack_ok_snoc simp flip: append_assoc)

lemma stack_ok_step:
  "stack_ok a st \<Longrightarrow> CHR ''/'' \<notin> set seg \<Longrightarrow> stack_ok a (normalize_step a st seg)"
  by (auto simp: normalize_step_def stack_ok_snoc stack_ok_single stack_ok_butlast)

lemma stack_ok_foldl:
  "stack_ok a st \<Longrightarrow> \<forall>x \<in> set segs. CHR ''/'' \<notin> set x
   \<Longrightarrow> stack_ok a (foldl (normalize_step a) st segs)"
  by (induction segs arbitrary: st) (auto simp: stack_ok_step)

lemma stack_ok_normalizeString: "stack_ok a (normalizeString s a)"
  unfolding normalizeString_def
  by (rule stack_ok_foldl) (auto dest: split_slash_free)

lemma stack_ok_fixed:
  "stack_ok a (st @ xs) \<Longrightarrow> foldl (normalize_step a) st xs = st @ xs"
proof (induction xs arbitrary: st)
  case Nil
  then show ?case by simp
next
  case (Cons x xs)
  have "stack_ok a ((st @ [x]) @ xs)" using Cons.prems by simp
  then have ih: "foldl (normalize_step a) (st @ [x]) xs = (st @ [x]) @ xs"
    by (rule Cons.IH)
  have "stack_ok a (st @ [x])"
    using stack_ok_append [of a "st @ [x]" xs] Cons.prems by simp
  then have "normalize_step a st x = st @ [x]"
    by (auto simp: stack_ok_snoc normalize_step_def)
  then show ?case using ih by simp
qed

lemma stack_ok_free: "stack_ok a st \<Longrightarrow> x \<in> set st \<Longrightarrow> CHR ''/'' \<notin> set x \<and> x \<noteq> []"
  by (induction st rule: rev_induct) (auto simp: stack_ok_snoc)

lemma stack_ok_no_dots: "stack_ok False st \<Longrightarrow> x \<in> set st \<Longrightarrow> x \<noteq> ''..''"
  by (induction st rule: rev_induct) (auto simp: stack_ok_snoc)

lemma join_slash_empty: "join_slash st = [] \<Longrightarrow> \<forall>x \<in> set st. x \<noteq> [] \<Longrightarrow> st = []"
  by (induction st rule: join_slash.induct) auto

lemma hd_join_slash: "st \<noteq> [] \<Longrightarrow> hd st \<noteq> [] \<Longrightarrow> hd (join_slash st) = hd (hd st)"
  by (induction st rule: join_slash.induct) auto

lemma join_slash_Cons_ne: "zs \<noteq> [] \<Longrightarrow> join_slash (y # zs) \<noteq> []"
  by (cases zs) auto

lemma last_join_slash: "st \<noteq> [] \<Longrightarrow> last st \<noteq> [] \<Longrightarrow> last (join_slash st) = last (last st)"
  by (induction st rule: join_slash.induct) (auto simp: join_slash_Cons_ne)
lemma foldl_normalize_segments:
  assumes "stack_ok a st"
  shows "foldl (normalize_step a) [] ((if b then [[]] else []) @ st @ (if t then [[]] else [])) = st"
proof -
  have fx: "foldl (normalize_step a) [] st = st"
    using stack_ok_fixed [of a "[]" st] assms by simp
  have e: "normalize_step a [] [] = []" "normalize_step a st [] = st"
    by (simp_all add: normalize_step_def)
  show ?thesis using fx e by (cases b; cases t) simp_all
qed

lemma path_normalize_stack:
  assumes "stack_ok (\<not> b) st" and "st \<noteq> []"
  shows "path_normalize ((if b then ''/'' else []) @ join_slash st @ (if t then ''/'' else []))
         = (if b then ''/'' else []) @ join_slash st @ (if t then ''/'' else [])"
proof -
  let ?res = "join_slash st"
  let ?J = "(if b then ''/'' else []) @ ?res @ (if t then ''/'' else [])"
  have free: "\<forall>x \<in> set st. CHR ''/'' \<notin> set x" and ne: "\<forall>x \<in> set st. x \<noteq> []"
    using stack_ok_free [OF assms(1)] by auto
  have res: "?res \<noteq> []"
    using join_slash_empty [of st] ne assms(2) by blast
  have hdst: "hd st \<in> set st" and lastst: "last st \<in> set st"
    using assms(2) by auto
  have hd_res: "hd ?res \<noteq> CHR ''/''"
  proof -
    have "hd ?res = hd (hd st)" using hd_join_slash [OF assms(2)] ne hdst by blast
    moreover have "hd (hd st) \<in> set (hd st)" using ne hdst by auto
    ultimately show ?thesis using free hdst by metis
  qed
  have last_res: "last ?res \<noteq> CHR ''/''"
  proof -
    have "last ?res = last (last st)" using last_join_slash [OF assms(2)] ne lastst by blast
    moreover have "last (last st) \<in> set (last st)" using ne lastst by auto
    ultimately show ?thesis using free lastst by metis
  qed
  have J: "?J \<noteq> []" using res by simp
  have hdJ: "(hd ?J = CHR ''/'') = b" using res hd_res by simp
  have lastJ: "(last ?J = CHR ''/'') = t" using res last_res by simp
  have sp: "split_slash ?res = st" by (rule split_join [OF assms(2) free])
  have "split_slash (?res @ (if t then ''/'' else [])) = st @ (if t then [[]] else [])"
    using split_append_slash [of ?res "[]"] sp by simp
  then have split: "split_slash ?J = (if b then [[]] else []) @ st @ (if t then [[]] else [])"
    using split_append_slash [of "[]" "?res @ (if t then ''/'' else [])"] by simp
  have nS: "normalizeString ?J (\<not> b) = st"
    unfolding normalizeString_def split by (rule foldl_normalize_segments [OF assms(1)])
  show ?thesis
    unfolding path_normalize_def [of ?J] Let_def hdJ lastJ nS using J res by simp
qed

lemma path_normalize_cases:
  "\<exists>b st t. stack_ok (\<not> b) st \<and>
     (if st = [] then path_normalize s \<in> {''/'', ''./'', ''.''}
      else path_normalize s = (if b then ''/'' else []) @ join_slash st @ (if t then ''/'' else []))"
proof (cases "s = []")
  case True
  then show ?thesis
    by (intro exI [of _ False] exI [of _ "[]"]) (simp add: path_normalize_def)
next
  case False
  let ?b = "hd s = CHR ''/''"
  let ?t = "last s = CHR ''/''"
  let ?st = "normalizeString s (\<not> ?b)"
  have ok: "stack_ok (\<not> ?b) ?st" by (rule stack_ok_normalizeString)
  have ne: "\<forall>x \<in> set ?st. x \<noteq> []" using stack_ok_free [OF ok] by auto
  have e: "(join_slash ?st = []) = (?st = [])"
    using join_slash_empty [of ?st] ne by auto
  show ?thesis
    apply (rule exI [of _ ?b], rule exI [of _ ?st], rule exI [of _ ?t])
    using False ok e by (simp add: path_normalize_def Let_def)
qed

lemma path_normalize_idem: "path_normalize (path_normalize s) = path_normalize s"
proof -
  obtain b st t where ok: "stack_ok (\<not> b) st"
    and c: "if st = [] then path_normalize s \<in> {''/'', ''./'', ''.''}
            else path_normalize s = (if b then ''/'' else []) @ join_slash st @ (if t then ''/'' else [])"
    using path_normalize_cases [of s] by blast
  have small: "path_normalize ''/'' = ''/''" "path_normalize ''./'' = ''./''"
    "path_normalize ''.'' = ''.''"
    by (simp_all add: path_normalize_def normalizeString_def normalize_step_def)
  show ?thesis
  proof (cases "st = []")
    case True
    then show ?thesis using c small by auto
  next
    case False
    then show ?thesis using c path_normalize_stack [OF ok False, of t] by simp
  qed
qed

lemma path_join_normal [simp]: "path_normalize (path_join a b) = path_join a b"
  by (simp add: path_join_def Let_def path_normalize_idem)
     (simp add: path_normalize_def normalizeString_def normalize_step_def)

text \<open>The last segment of a path survives normalisation when it is a name.\<close>

lemma last_split_normalize:
  assumes "split_slash s = xs @ [seg]" and "seg \<noteq> []" and "seg \<noteq> ''.''" and "seg \<noteq> ''..''"
  shows "last (split_slash (path_normalize s)) = seg"
proof -
  let ?b = "hd s = CHR ''/''"
  let ?st0 = "foldl (normalize_step (\<not> ?b)) [] xs"
  have s: "s \<noteq> []" using assms(1,2) by (cases s) auto
  have free: "CHR ''/'' \<notin> set seg"
    using split_slash_free [of seg s] assms(1) by simp
  have "s = join_slash (xs @ [seg])" using join_split [of s] assms(1) by simp
  then have "last s = last seg"
    using last_join_slash [of "xs @ [seg]"] assms(2) by simp
  then have tr: "last s \<noteq> CHR ''/''" using free assms(2) by (metis last_in_set)
  have nS: "normalizeString s (\<not> ?b) = ?st0 @ [seg]"
    by (rule normalizeString_snoc [OF assms])
  have ok: "stack_ok (\<not> ?b) (?st0 @ [seg])"
    using stack_ok_normalizeString [of "\<not> ?b" s] nS by simp
  have ne: "join_slash (?st0 @ [seg]) \<noteq> []"
    using join_slash_empty [of "?st0 @ [seg]"] stack_ok_free [OF ok] by blast
  have N: "path_normalize s = (if ?b then ''/'' else []) @ join_slash (?st0 @ [seg])"
    using s tr ne by (simp add: path_normalize_def Let_def nS)
  show ?thesis
  proof (cases "?st0 = []")
    case True
    then have "path_normalize s = (if ?b then ''/'' else []) @ seg" using N by simp
    then show ?thesis
      using split_append_slash [of "[]" seg] free by (auto simp: split_no_slash)
  next
    case False
    then have "path_normalize s
                 = ((if ?b then ''/'' else []) @ join_slash ?st0) @ CHR ''/'' # seg"
      using N by (simp add: join_snoc)
    then show ?thesis
      using split_append_slash [of "(if ?b then ''/'' else []) @ join_slash ?st0" seg] free
      by (simp add: split_no_slash)
  qed
qed

lemma last_split_join:
  assumes "last (split_slash b) = seg" and "seg \<noteq> []" and "seg \<noteq> ''.''" and "seg \<noteq> ''..''"
  shows "last (split_slash (path_join a b)) = seg"
proof -
  have b: "b \<noteq> []" using assms(1,2) by auto
  obtain xs where xs: "split_slash b = xs @ [seg]"
    using assms(1) split_slash_ne [of b] by (metis append_butlast_last_id)
  show ?thesis
  proof (cases "a = []")
    case True
    then have "path_join a b = path_normalize b" using b by (simp add: path_join_def)
    then show ?thesis using last_split_normalize [OF xs assms(2-4)] by simp
  next
    case False
    then have j: "path_join a b = path_normalize (a @ CHR ''/'' # b)"
      using b by (simp add: path_join_def)
    have "split_slash (a @ CHR ''/'' # b) = (split_slash a @ xs) @ [seg]"
      using xs by (simp add: split_append_slash)
    then show ?thesis using last_split_normalize [OF _ assms(2-4)] j by simp
  qed
qed

lemma last_split_suffix:
  "CHR ''/'' \<notin> set y \<Longrightarrow> last (split_slash (x @ y)) = last (split_slash x) @ y"
  by (simp add: split_append_free)

lemma last_split_prefix:
  assumes "CHR ''/'' \<notin> set x"
  shows "last (split_slash (x @ y))
         = (if CHR ''/'' \<in> set y then last (split_slash y) else x @ y)"
proof (cases "CHR ''/'' \<in> set y")
  case False
  then show ?thesis using assms by (simp add: split_no_slash)
next
  case True
  then obtain y1 y2 where y: "y = y1 @ CHR ''/'' # y2" by (auto dest: split_list)
  have "split_slash (x @ y) = split_slash (x @ y1) @ split_slash y2"
    using split_append_slash [of "x @ y1" y2] y by simp
  moreover have "split_slash y = split_slash y1 @ split_slash y2"
    using split_append_slash [of y1 y2] y by simp
  ultimately show ?thesis using True by simp
qed

lemma path_normalize_dot_slash:
  assumes "x \<noteq> []" and "hd x \<noteq> CHR ''/''"
  shows "path_normalize (CHR ''.'' # CHR ''/'' # x) = path_normalize x"
proof -
  have sp: "split_slash (CHR ''.'' # CHR ''/'' # x) = ''.'' # split_slash x"
    by simp
  have "normalizeString (CHR ''.'' # CHR ''/'' # x) True = normalizeString x True"
    unfolding normalizeString_def sp by (simp add: normalize_step_def)
  then show ?thesis using assms by (simp add: path_normalize_def)
qed

lemma path_join_names:
  assumes "stack_ok True st" and "st \<noteq> []"
    and "b \<noteq> []" and "b \<noteq> ''.''" and "b \<noteq> ''..''" and "CHR ''/'' \<notin> set b"
  shows "path_join (join_slash st) b = join_slash (st @ [b])"
proof -
  have ne: "join_slash st \<noteq> []"
    using join_slash_empty [of st] stack_ok_free [OF assms(1)] assms(2) by blast
  have ok: "stack_ok (\<not> False) (st @ [b])"
    using assms by (simp add: stack_ok_snoc)
  have "path_join (join_slash st) b = path_normalize (join_slash st @ CHR ''/'' # b)"
    using ne assms(3) by (simp add: path_join_def)
  also have "\<dots> = path_normalize (join_slash (st @ [b]))"
    using assms(2) by (simp add: join_snoc)
  also have "\<dots> = join_slash (st @ [b])"
    using path_normalize_stack [OF ok, of False] by simp
  finally show ?thesis .
qed

lemma path_join_dot_names:
  assumes "stack_ok True st" and "st \<noteq> []"
    and "b \<noteq> []" and "b \<noteq> ''.''" and "b \<noteq> ''..''" and "CHR ''/'' \<notin> set b"
  shows "path_join (CHR ''.'' # CHR ''/'' # join_slash st) b = join_slash (st @ [b])"
proof -
  have ne: "join_slash st \<noteq> []"
    using join_slash_empty [of st] stack_ok_free [OF assms(1)] assms(2) by blast
  have "hd st \<in> set st" using assms(2) by simp
  then have h: "hd st \<noteq> []" "CHR ''/'' \<notin> set (hd st)"
    using stack_ok_free [OF assms(1)] by blast+
  have "hd (join_slash st) = hd (hd st)" by (rule hd_join_slash [OF assms(2) h(1)])
  then have hd: "hd (join_slash st @ CHR ''/'' # b) \<noteq> CHR ''/''"
    using ne h by (metis hd_append2 hd_in_set)
  have "path_join (CHR ''.'' # CHR ''/'' # join_slash st) b
          = path_normalize (CHR ''.'' # CHR ''/'' # (join_slash st @ CHR ''/'' # b))"
    using assms(3) by (simp add: path_join_def)
  also have "\<dots> = path_normalize (join_slash st @ CHR ''/'' # b)"
    by (rule path_normalize_dot_slash [OF _ hd]) simp
  also have "\<dots> = path_join (join_slash st) b"
    using ne assms(3) by (simp add: path_join_def)
  finally show ?thesis using path_join_names [OF assms] by simp
qed

lemma name_with_suffix:
  "2 < length s \<Longrightarrow> x @ s \<noteq> [] \<and> x @ s \<noteq> ''.'' \<and> x @ s \<noteq> ''..''"
  by (auto dest: arg_cong [where f = length])

section \<open>The io operations never throw\<close>

lemma performs_bind:
  assumes "performs m x T tr" and "performs (f x) y T' tr'"
  shows "performs (io_bind m f) y (T' \<circ> T) (tr @ tr')"
  unfolding performs_def
proof
  fix w
  from assms(1) obtain w1 where 1: "m w = (Inr x, w1)" "nodes w1 = T (nodes w)"
      "op_trace w1 = op_trace w @ tr"
    unfolding performs_def by blast
  from assms(2) obtain w2 where 2: "f x w1 = (Inr y, w2)" "nodes w2 = T' (nodes w1)"
      "op_trace w2 = op_trace w1 @ tr'"
    unfolding performs_def by blast
  show "\<exists>w'. io_bind m f w = (Inr y, w') \<and> nodes w' = (T' \<circ> T) (nodes w)
          \<and> op_trace w' = op_trace w @ tr @ tr'"
    using 1 2 by (simp add: io_bind_def)
qed

lemma performs_bindI:
  "performs m x T tr \<Longrightarrow> performs k y T' tr' \<Longrightarrow> f x = k
     \<Longrightarrow> performs (io_bind m f) y (T' \<circ> T) (tr @ tr')"
  using performs_bind [of m x T tr f y T' tr'] by simp

lemma performs_return: "performs (io_return x) x id []"
  by (simp add: performs_def io_return_def)

lemma performs_lift: "performs (io_lift (Inr x)) x id []"
  by (simp add: performs_def io_lift_def)

lemma performs_started: "performs (started nm this) () id [(nm, objectApiName this)]"
  by (simp add: performs_def started_def)

lemma performs_readFileContents:
  "performs (readFileContents e this p) (read_text e this p) id []"
  by (auto simp: performs_def readFileContents_def read_text_def try_catch_def fs_readFileSync_def
      io_lift_def io_bind_def console_log_def io_return_def split: sum.splits)

lemma performs_writeFileContents:
  "performs (writeFileContents e d f c) ()
     (write_nodes e (path_normalize d) (path_normalize (path_join d f)) c) []"
  by (auto simp: performs_def writeFileContents_def write_nodes_def Let_def try_catch_def
      fs_existsSync_def fs_mkdirSync_def fs_writeFileSync_def console_log_def split: sum.splits)

lemma performs_forEach:
  assumes "\<And>x. x \<in> set xs \<Longrightarrow> performs (f x) () (T x) []"
  shows "performs (io_forEach xs f) () (fold T xs) []"
  using assms
proof (induction xs)
  case Nil
  then show ?case by (simp add: performs_def io_return_def)
next
  case (Cons a xs)
  have "performs (io_bind (f a) (\<lambda>_. io_forEach xs f)) () (fold T xs \<circ> T a) ([] @ [])"
    by (rule performs_bind) (simp_all add: Cons)
  then show ?case by (simp only: fold.simps io_forEach.simps append_Nil)
qed

subsection \<open>The renderer throws only for a dictionary that shadows hasOwnProperty\<close>

lemma replace_loop_ok:
  assumes "''hasOwnProperty'' \<notin> set (obj_keys tv)" and "set ks \<subseteq> set (obj_keys tv)"
  shows "replace_loop tv ks c =
     Inr (foldl (\<lambda>acc key. js_replace acc (marker key)
                          (case obj_get tv key of Some x \<Rightarrow> x | None \<Rightarrow> ''undefined'')) c ks)"
  using assms by (induction ks arbitrary: c) (simp_all add: hasOwnProperty_def)

lemma replaceAll_ok:
  "''hasOwnProperty'' \<notin> set (obj_keys tv) \<Longrightarrow> replaceAllTemplateVariables c tv = Inr (render c tv)"
  by (simp add: replaceAllTemplateVariables_def render_def replace_loop_ok)

lemma obj_keys_simps: "obj_keys [] = []" "obj_keys ((k, v) # ps) = k # obj_keys ps"
  by (simp_all add: obj_keys_def)

lemma obj_keys_obj_set: "set (obj_keys (obj_set k v obj)) = insert k (set (obj_keys obj))"
  by (induction obj) (force simp: obj_keys_def)+

lemma obj_keys_obj_spread: "set (obj_keys (obj_spread a b)) = set (obj_keys a) \<union> set (obj_keys b)"
  unfolding obj_spread_def
  by (induction b arbitrary: a) (auto simp: obj_keys_obj_set obj_keys_simps)

lemma obj_keys_new_CodeBuilder: "obj_keys (templateVariables (new_CodeBuilder uri n fs)) = fixed_keys"
  by (simp add: new_CodeBuilder_def generateTemplateVariables_def Let_def fixed_keys_def obj_keys_def)

lemma wellformed_new_CodeBuilder: "wellformed (new_CodeBuilder uri n fs)"
  by (simp add: wellformed_def obj_keys_new_CodeBuilder fixed_keys_def)

lemma objectApiName_new_CodeBuilder: "objectApiName (new_CodeBuilder uri n fs) = n"
  by (simp add: new_CodeBuilder_def generateTemplateVariables_def Let_def)

lemma api_name_new_CodeBuilder:
  "obj_get (templateVariables (new_CodeBuilder uri n fs)) ''TEMPLATE_OBJECT_API_NAME'' = Some n"
  by (simp add: new_CodeBuilder_def generateTemplateVariables_def Let_def obj_get_def)

subsection \<open>The effect of the generation operations\<close>

lemma performs_copy_step:
  assumes "wellformed this"
  shows "performs
     (io_bind (readFileContents e this (path_join3 TEMPLATE_DIR t (t @ ''.'' @ ext)))
         (\<lambda>fileContents.
       io_bind (io_lift (replaceAllTemplateVariables fileContents (templateVariables this)))
         (\<lambda>newFileContents.
       writeFileContents e (path_join LWC_DESTINATION_DIR l) (l @ ''.'' @ ext) newFileContents)))
     () (serve e (lwc_request e this t l ext)) []"
proof -
  let ?c = "read_text e this (path_join3 TEMPLATE_DIR t (t @ ''.'' @ ext))"
  have r: "replaceAllTemplateVariables ?c (templateVariables this)
             = Inr (render ?c (templateVariables this))"
    using assms by (simp add: replaceAll_ok wellformed_def)
  have a: "performs (io_lift (replaceAllTemplateVariables ?c (templateVariables this)))
             (render ?c (templateVariables this)) id []"
    unfolding r by (rule performs_lift)
  have b: "performs (writeFileContents e (path_join LWC_DESTINATION_DIR l) (l @ ''.'' @ ext)
             (render ?c (templateVariables this))) () (serve e (lwc_request e this t l ext)) []"
    unfolding serve_def lwc_request_def fst_conv snd_conv by (rule performs_writeFileContents)
  have "performs
     (io_bind (readFileContents e this (path_join3 TEMPLATE_DIR t (t @ ''.'' @ ext)))
         (\<lambda>fileContents.
       io_bind (io_lift (replaceAllTemplateVariables fileContents (templateVariables this)))
         (\<lambda>newFileContents.
       writeFileContents e (path_join LWC_DESTINATION_DIR l) (l @ ''.'' @ ext) newFileContents)))
     () ((serve e (lwc_request e this t l ext) \<circ> id) \<circ> id) ([] @ [] @ [])"
    by (rule performs_bindI [OF performs_readFileContents performs_bindI [OF a b]]) simp_all
  then show ?thesis by (simp only: comp_id append_Nil)
qed

lemma performs_copyTemplateFiles:
  assumes "wellformed this"
  shows "performs (copyTemplateFiles e this t l) ()
           (fold (serve e) (map (lwc_request e this t l) TEMPLATE_FILE_EXTENSIONS)) []"
proof -
  have "performs (copyTemplateFiles e this t l) ()
          (fold (\<lambda>ext. serve e (lwc_request e this t l ext)) TEMPLATE_FILE_EXTENSIONS) []"
    unfolding copyTemplateFiles_def
    by (rule performs_forEach) (rule performs_copy_step [OF assms])
  then show ?thesis by (simp add: fold_map comp_def)
qed

lemma quickActionVariables_eq:
  "(if iconName \<noteq> [] then
      obj_set ''TEMPLATE_QUICK_ACTION_ICON'' (''<icon>'' @ iconName @ ''</icon>'')
        (obj_set ''TEMPLATE_LWC_NAME'' lwcName (obj_set ''TEMPLATE_QUICK_ACTION_LABEL'' label []))
    else obj_set ''TEMPLATE_QUICK_ACTION_ICON'' []
        (obj_set ''TEMPLATE_LWC_NAME'' lwcName (obj_set ''TEMPLATE_QUICK_ACTION_LABEL'' label [])))
   = quickActionVariables label lwcName iconName"
  by (simp add: quickActionVariables_def)

lemma performs_createQuickAction:
  assumes "wellformed this"
  shows "performs (createQuickAction e this label l icon) ()
           (serve e (qa_request e this label l icon)) []"
proof -
  let ?c = "read_text e this (path_join TEMPLATE_DIR QUICK_ACTION_TEMPLATE_NAME)"
  let ?tv = "obj_spread (templateVariables this) (quickActionVariables label l icon)"
  have "''hasOwnProperty'' \<notin> set (obj_keys ?tv)"
    using assms by (simp add: obj_keys_obj_spread wellformed_def)
      (simp add: obj_keys_def quickActionVariables_def)
  then have r: "replaceAllTemplateVariables ?c ?tv = Inr (render ?c ?tv)"
    by (rule replaceAll_ok)
  have a: "performs (io_lift (replaceAllTemplateVariables ?c ?tv)) (render ?c ?tv) id []"
    unfolding r by (rule performs_lift)
  have b: "performs (writeFileContents e QA_DESTINATION_DIR
             ((case obj_get (templateVariables this) ''TEMPLATE_OBJECT_API_NAME'' of
                 Some n \<Rightarrow> n | None \<Rightarrow> ''undefined'')
              @ ''.'' @ toLowerCase label @ ''.quickAction-meta.xml'')
             (render ?c ?tv)) () (serve e (qa_request e this label l icon)) []"
    unfolding serve_def qa_request_def fst_conv snd_conv by (rule performs_writeFileContents)
  have "performs (createQuickAction e this label l icon) ()
          ((serve e (qa_request e this label l icon) \<circ> id) \<circ> id) ([] @ [] @ [])"
    unfolding createQuickAction_def Let_def quickActionVariables_eq
    by (rule performs_bindI [OF performs_readFileContents performs_bindI [OF a b]]) simp_all
  then show ?thesis by (simp only: comp_id append_Nil)
qed

lemma resolves_executor: "performs body x T tr \<Longrightarrow> resolves (promise_of_executor body) x T tr"
  unfolding performs_def resolves_def promise_of_executor_def
  by (metis (mono_tags, lifting) old.prod.case old.sum.simps(6))

lemma performs_operation:
  assumes "wellformed this"
  shows "performs
       (io_bind (started nm this) (\<lambda>_.
        io_bind (copyTemplateFiles e this t l) (\<lambda>_.
        io_bind (createQuickAction e this label l icon) (\<lambda>_.
        io_return True))))
       True (fold (serve e) (requests e this t label l icon)) [(nm, objectApiName this)]"
proof -
  have "performs
       (io_bind (started nm this) (\<lambda>_.
        io_bind (copyTemplateFiles e this t l) (\<lambda>_.
        io_bind (createQuickAction e this label l icon) (\<lambda>_.
        io_return True))))
       True (((id \<circ> serve e (qa_request e this label l icon))
              \<circ> fold (serve e) (map (lwc_request e this t l) TEMPLATE_FILE_EXTENSIONS)) \<circ> id)
       ([(nm, objectApiName this)] @ [] @ [] @ [])"
    by (rule performs_bindI [OF performs_started
          performs_bindI [OF performs_copyTemplateFiles [OF assms]
            performs_bindI [OF performs_createQuickAction [OF assms] performs_return]]])
       simp_all
  then show ?thesis by (simp add: requests_def)
qed

lemma resolves_generate:
  assumes "wellformed this"
  shows "resolves (generate e this k) True
     (fold (serve e) (kind_requests e this k)) [(op_name k, objectApiName this)]"
proof (cases k)
  case View
  show ?thesis unfolding View generate.simps kind_requests.simps op_name.simps
    unfolding generateView_def Let_def by (rule resolves_executor) (rule performs_operation [OF assms])
next
  case Edit
  show ?thesis unfolding Edit generate.simps kind_requests.simps op_name.simps
    unfolding generateEdit_def Let_def by (rule resolves_executor) (rule performs_operation [OF assms])
next
  case Create
  show ?thesis unfolding Create generate.simps kind_requests.simps op_name.simps
    unfolding generateCreate_def Let_def by (rule resolves_executor) (rule performs_operation [OF assms])
qed

lemma generate_nodes:
  "nodes (snd (generate e (new_CodeBuilder uri n fs) k w))
     = fold (serve e) (kind_requests e (new_CodeBuilder uri n fs) k) (nodes w)"
  using resolves_generate [OF wellformed_new_CodeBuilder, of e uri n fs k]
  unfolding resolves_def by (metis snd_conv)

subsection \<open>Serving a list of write requests\<close>

lemmas req_defs = req_dir_def req_path_def req_content_def

lemma mkdir_recursive_keeps: "ns q \<noteq> None \<Longrightarrow> mkdir_recursive d ns q = ns q"
  by (simp add: mkdir_recursive_def)

lemma mkdir_recursive_other:
  "q \<notin> set (ancestors d) \<Longrightarrow> q \<noteq> d \<Longrightarrow> mkdir_recursive d ns q = ns q"
  by (simp add: mkdir_recursive_def)

lemma mkdir_recursive_self: "mkdir_recursive d ns d \<noteq> None"
  by (simp add: mkdir_recursive_def)

lemma mkdir_recursive_value:
  "mkdir_recursive d ns q = ns q \<or> (ns q = None \<and> mkdir_recursive d ns q = Some Directory)"
  by (simp add: mkdir_recursive_def)

lemma serve_other:
  "q \<notin> set (ancestors (req_dir r)) \<Longrightarrow> q \<noteq> req_dir r \<Longrightarrow> q \<noteq> req_path r
   \<Longrightarrow> serve e r ns q = ns q"
  by (simp add: serve_def write_nodes_def req_defs Let_def mkdir_recursive_other)

lemma fold_serve_other:
  "\<forall>r \<in> set rs. q \<notin> set (ancestors (req_dir r)) \<and> q \<noteq> req_dir r \<and> q \<noteq> req_path r
   \<Longrightarrow> fold (serve e) rs ns q = ns q"
  by (induction rs arbitrary: ns) (simp_all add: serve_other)

lemma serve_keeps_nodes: "ns q \<noteq> None \<Longrightarrow> serve e r ns q \<noteq> None"
  by (auto simp: serve_def write_nodes_def Let_def mkdir_recursive_keeps)

lemma settled_fixed: "settled e r ns \<Longrightarrow> serve e r ns = ns"
  by (auto simp: settled_def serve_def write_nodes_def req_defs Let_def fun_upd_idem
      split: if_splits)

lemma settled_after_serve: "settled e r (serve e r ns)"
  using mkdir_recursive_self [of "req_dir r" ns]
  by (auto simp: settled_def serve_def write_nodes_def req_defs Let_def)

lemma settled_preserved:
  assumes "settled e r ns" and "req_path r \<noteq> req_path r'" and "req_path r' \<noteq> req_dir r"
    and "req_dir r = req_dir r' \<or> req_dir r \<notin> set (ancestors (req_dir r'))"
  shows "settled e r (serve e r' ns)"
proof (cases "ns (req_dir r) = None")
  case True
  then have f: "mkdir_fails e (req_dir r)" using assms(1) by (simp add: settled_def)
  have "serve e r' ns (req_dir r) = None"
  proof (cases "req_dir r = req_dir r'")
    case True
    then show ?thesis
      using f \<open>ns (req_dir r) = None\<close> by (simp add: serve_def write_nodes_def req_defs)
  next
    case False
    then have "serve e r' ns (req_dir r) = ns (req_dir r)"
      using assms(3,4) by (intro serve_other) auto
    then show ?thesis using True by simp
  qed
  then show ?thesis using f by (simp add: settled_def)
next
  case False
  then have d: "serve e r' ns (req_dir r) \<noteq> None" by (rule serve_keeps_nodes)
  have w: "write_fails e (req_path r) \<or> ns (req_path r) = Some (File (req_content r))"
    using assms(1) False by (simp add: settled_def)
  have "ns (req_path r) = Some (File (req_content r))
        \<Longrightarrow> serve e r' ns (req_path r) = Some (File (req_content r))"
    using assms(2)
    by (auto simp: serve_def write_nodes_def req_defs Let_def mkdir_recursive_keeps)
  then show ?thesis using d w by (auto simp: settled_def)
qed

lemma settled_fold_preserved:
  assumes "settled e r ns"
    and "\<forall>r' \<in> set rs. req_path r \<noteq> req_path r' \<and> req_path r' \<noteq> req_dir r
           \<and> (req_dir r = req_dir r' \<or> req_dir r \<notin> set (ancestors (req_dir r')))"
  shows "settled e r (fold (serve e) rs ns)"
  using assms
proof (induction rs arbitrary: ns)
  case Nil
  then show ?case by simp
next
  case (Cons x xs)
  have c: "req_path r \<noteq> req_path x" "req_path x \<noteq> req_dir r"
    "req_dir r = req_dir x \<or> req_dir r \<notin> set (ancestors (req_dir x))"
    using Cons.prems(2) by simp_all
  have rest: "\<forall>r' \<in> set xs. req_path r \<noteq> req_path r' \<and> req_path r' \<noteq> req_dir r
           \<and> (req_dir r = req_dir r' \<or> req_dir r \<notin> set (ancestors (req_dir r')))"
    using Cons.prems(2) by simp
  have "settled e r (serve e x ns)" by (rule settled_preserved [OF Cons.prems(1) c])
  then have "settled e r (fold (serve e) xs (serve e x ns))" using rest by (rule Cons.IH)
  then show ?case by simp
qed

lemma settled_fold:
  assumes "separate rs" and "dirs_stay rs" and "r \<in> set rs"
  shows "settled e r (fold (serve e) rs ns)"
  using assms
proof (induction rs arbitrary: ns)
  case Nil
  then show ?case by simp
next
  case (Cons x xs)
  have dist: "req_path x \<notin> req_path ` set xs" and dist': "distinct (map req_path xs)"
    using Cons.prems(1) by (simp_all add: separate_def)
  have disj: "set (map req_path (x # xs)) \<inter> set (map req_dir (x # xs)) = {}"
    using Cons.prems(1) by (simp only: separate_def)
  have sep: "separate xs"
    unfolding separate_def using dist' disj by auto
  have stay: "dirs_stay xs" using Cons.prems(2) by simp
  have anc: "\<forall>r' \<in> set xs. req_dir x = req_dir r' \<or> req_dir x \<notin> set (ancestors (req_dir r'))"
    using Cons.prems(2) by simp
  show ?case
  proof (cases "r = x")
    case True
    have "req_path x \<noteq> req_path r' \<and> req_path r' \<noteq> req_dir x
           \<and> (req_dir x = req_dir r' \<or> req_dir x \<notin> set (ancestors (req_dir r')))"
      if m: "r' \<in> set xs" for r'
    proof -
      have a: "req_path x \<noteq> req_path r'" using dist m by (metis imageI)
      have "req_path r' \<in> set (map req_path (x # xs))" "req_dir x \<in> set (map req_dir (x # xs))"
        using m by simp_all
      then have b: "req_path r' \<noteq> req_dir x" using disj by (metis IntI empty_iff)
      have c: "req_dir x = req_dir r' \<or> req_dir x \<notin> set (ancestors (req_dir r'))"
        using anc m by blast
      show ?thesis using a b c by blast
    qed
    then have "\<forall>r' \<in> set xs. req_path x \<noteq> req_path r' \<and> req_path r' \<noteq> req_dir x
           \<and> (req_dir x = req_dir r' \<or> req_dir x \<notin> set (ancestors (req_dir r')))"
      by blast
    then have "settled e x (fold (serve e) xs (serve e x ns))"
      by (rule settled_fold_preserved [OF settled_after_serve])
    then show ?thesis using True by simp
  next
    case False
    then have "r \<in> set xs" using Cons.prems(3) by simp
    then have "settled e r (fold (serve e) xs (serve e x ns))" by (rule Cons.IH [OF sep stay])
    then show ?thesis by simp
  qed
qed

lemma fold_fixed:
  "(\<And>r. r \<in> set rs \<Longrightarrow> serve e r ns = ns) \<Longrightarrow> fold (serve e) rs ns = ns"
  by (induction rs) simp_all

lemma fold_serve_idem:
  assumes "separate rs" and "dirs_stay rs"
  shows "fold (serve e) rs (fold (serve e) rs ns) = fold (serve e) rs ns"
  by (rule fold_fixed) (rule settled_fixed [OF settled_fold [OF assms]])

lemma serve_new_file:
  assumes "serve e r ns q = Some (File c)" and "ns q \<noteq> Some (File c)"
  shows "req_path r = q \<and> req_content r = c"
  using assms mkdir_recursive_value [of "req_dir r" ns q]
  by (auto simp: serve_def write_nodes_def req_defs Let_def split: if_splits)

lemma fold_serve_new_file:
  assumes "fold (serve e) rs ns q = Some (File c)" and "ns q \<noteq> Some (File c)"
  shows "\<exists>r \<in> set rs. req_path r = q \<and> req_content r = c"
  using assms
proof (induction rs arbitrary: ns)
  case Nil
  then show ?case by simp
next
  case (Cons r rs)
  show ?case
  proof (cases "serve e r ns q = Some (File c)")
    case True
    then show ?thesis using serve_new_file [OF True Cons.prems(2)] by auto
  next
    case False
    then show ?thesis using Cons.IH [of "serve e r ns"] Cons.prems(1) by auto
  qed
qed

lemma serve_outside_paths:
  assumes "q \<noteq> req_path r"
  shows "serve e r ns q = ns q \<or> (ns q = None \<and> serve e r ns q = Some Directory)"
  using assms mkdir_recursive_value [of "req_dir r" ns q]
  by (auto simp: serve_def write_nodes_def req_defs Let_def)

lemma fold_serve_outside_paths:
  assumes "q \<notin> req_path ` set rs"
  shows "fold (serve e) rs ns q = ns q \<or> (ns q = None \<and> fold (serve e) rs ns q = Some Directory)"
  using assms
proof (induction rs arbitrary: ns)
  case Nil
  then show ?case by simp
next
  case (Cons r rs)
  have q: "q \<noteq> req_path r" "q \<notin> req_path ` set rs" using Cons.prems by auto
  from serve_outside_paths [OF q(1), of e ns] Cons.IH [OF q(2), of "serve e r ns"]
  show ?case by (cases "ns q") auto
qed

lemma separate_content_unique:
  assumes "separate rs" and "r \<in> set rs" and "r' \<in> set rs" and "req_path r = req_path r'"
  shows "req_content r = req_content r'"
proof -
  have "inj_on req_path (set rs)" using assms(1) by (simp add: separate_def distinct_map)
  then have "r = r'" using assms(2-4) by (auto dest: inj_onD)
  then show ?thesis by simp
qed

lemma serve_dir_exists:
  "\<not> (ns (req_dir r) = None \<and> mkdir_fails e (req_dir r)) \<Longrightarrow> serve e r ns (req_dir r) \<noteq> None"
  using mkdir_recursive_self [of "req_dir r" ns]
  by (auto simp: serve_def write_nodes_def req_defs Let_def)

lemma fold_serve_keeps_nodes: "ns q \<noteq> None \<Longrightarrow> fold (serve e) rs ns q \<noteq> None"
proof (induction rs arbitrary: ns)
  case Nil
  then show ?case by simp
next
  case (Cons r rs)
  have "serve e r ns q \<noteq> None" using Cons.prems by (rule serve_keeps_nodes)
  then have "fold (serve e) rs (serve e r ns) q \<noteq> None" by (rule Cons.IH)
  then show ?case by simp
qed

lemma fold_serve_dir_exists:
  assumes "\<not> (ns (req_dir r) = None \<and> mkdir_fails e (req_dir r))" and "r \<in> set rs"
  shows "fold (serve e) rs ns (req_dir r) \<noteq> None"
  using assms
proof (induction rs arbitrary: ns)
  case Nil
  then show ?case by simp
next
  case (Cons x xs)
  show ?case
  proof (cases "ns (req_dir r) = None")
    case False
    then show ?thesis by (rule fold_serve_keeps_nodes)
  next
    case True
    then have ok: "\<not> mkdir_fails e (req_dir r)" using Cons.prems(1) by simp
    show ?thesis
    proof (cases "r = x")
      case True
      have "serve e x ns (req_dir x) \<noteq> None"
        using Cons.prems(1) True by (intro serve_dir_exists) simp
      then show ?thesis using True by (simp add: fold_serve_keeps_nodes)
    next
      case False
      then have "r \<in> set xs" using Cons.prems(2) by simp
      then show ?thesis using Cons.IH [of "serve e x ns"] ok by simp
    qed
  qed
qed

lemma fold_serve_written:
  assumes "separate rs" and "dirs_stay rs" and "r \<in> set rs"
    and "\<not> write_fails e (req_path r)"
    and "\<not> (ns (req_dir r) = None \<and> mkdir_fails e (req_dir r))"
  shows "fold (serve e) rs ns (req_path r) = Some (File (req_content r))"
proof -
  have "settled e r (fold (serve e) rs ns)" by (rule settled_fold [OF assms(1,2,3)])
  moreover have "fold (serve e) rs ns (req_dir r) \<noteq> None"
    using assms(5,3) by (rule fold_serve_dir_exists)
  ultimately show ?thesis using assms(4) by (simp add: settled_def)
qed

lemma fold_serve_no_failure:
  assumes "no_failures e" and "separate rs" and "dirs_stay rs" and "r \<in> set rs"
  shows "fold (serve e) rs ns (req_path r) = Some (File (req_content r))"
  using assms(1) by (intro fold_serve_written assms(2,3,4)) (simp_all add: no_failures_def)

subsection \<open>The paths of the requests of a generation operation\<close>

lemmas path_defs = path_join_def path_join3_def path_normalize_def normalizeString_def
  normalize_step_def Let_def LWC_DESTINATION_DIR_def QA_DESTINATION_DIR_def

lemma to_lower_labels:
  "toLowerCase ''View'' = ''view''" "toLowerCase ''Edit'' = ''edit''"
  "toLowerCase ''Create'' = ''create''"
  by (simp_all add: toLowerCase_def lower_char_def upper_letters_def lower_letters_def)

lemma lwc_dir_normal [simp]: "path_normalize (lwc_dir base) = lwc_dir base"
  by (simp add: lwc_dir_def)

lemma qa_dir_normal:
  "path_normalize QA_DESTINATION_DIR = ''force-app/main/default/quickActions''"
  by (simp add: path_defs)

lemma qa_dir_ancestors:
  "ancestors ''force-app/main/default/quickActions''
     = [''force-app'', ''force-app/main'', ''force-app/main/default'']"
  by code_simp

lemma request_paths_written:
  "map req_path (kind_requests e (new_CodeBuilder uri n fs) k) = written_paths k n"
  by (cases k)
     (simp_all add: requests_def lwc_request_def qa_request_def req_defs written_paths_def
       lwc_dir_def Let_def api_name_new_CodeBuilder objectApiName_new_CodeBuilder to_lower_labels
       TEMPLATE_FILE_EXTENSIONS_def)

lemma request_dirs_list:
  "map req_dir (kind_requests e (new_CodeBuilder uri n fs) k)
     = [lwc_dir (kindVerb k @ n @ ''Record''), lwc_dir (kindVerb k @ n @ ''Record''),
        lwc_dir (kindVerb k @ n @ ''Record''), lwc_dir (kindVerb k @ n @ ''Record''),
        path_normalize QA_DESTINATION_DIR]"
  by (cases k)
     (simp_all add: requests_def lwc_request_def qa_request_def req_defs lwc_dir_def
       objectApiName_new_CodeBuilder TEMPLATE_FILE_EXTENSIONS_def)

lemma request_dirs:
  "set (map req_dir (kind_requests e (new_CodeBuilder uri n fs) k))
     = {lwc_dir (kindVerb k @ n @ ''Record''), path_normalize QA_DESTINATION_DIR}"
  unfolding request_dirs_list by simp

text \<open>The last segment of each path of an operation, for every name of the entity.\<close>

lemma kindVerb_free: "CHR ''/'' \<notin> set (kindVerb k)"
  by (cases k) simp_all

lemma verb_name_last:
  "last (split_slash (kindVerb k @ n))
     = (if CHR ''/'' \<in> set n then last (split_slash n) else kindVerb k @ n)"
  by (rule last_split_prefix [OF kindVerb_free])

lemma lwc_dir_last:
  "last (split_slash (lwc_dir (kindVerb k @ n @ ''Record'')))
     = last (split_slash (kindVerb k @ n)) @ ''Record''"
proof -
  have "last (split_slash ((kindVerb k @ n) @ ''Record''))
          = last (split_slash (kindVerb k @ n)) @ ''Record''"
    by (rule last_split_suffix) simp
  then have l: "last (split_slash (kindVerb k @ n @ ''Record''))
          = last (split_slash (kindVerb k @ n)) @ ''Record''"
    by simp
  have nm: "last (split_slash (kindVerb k @ n)) @ ''Record'' \<noteq> []
      \<and> last (split_slash (kindVerb k @ n)) @ ''Record'' \<noteq> ''.''
      \<and> last (split_slash (kindVerb k @ n)) @ ''Record'' \<noteq> ''..''"
    by (rule name_with_suffix) simp
  show ?thesis
    unfolding lwc_dir_def using last_split_join [OF l] nm by blast
qed

lemma lwc_file_last:
  assumes "CHR ''/'' \<notin> set ext"
  shows "last (split_slash (path_join d (kindVerb k @ n @ ''Record'' @ ''.'' @ ext)))
     = last (split_slash (kindVerb k @ n)) @ ''Record.'' @ ext"
proof -
  have "last (split_slash ((kindVerb k @ n) @ ''Record.'' @ ext))
          = last (split_slash (kindVerb k @ n)) @ ''Record.'' @ ext"
    by (rule last_split_suffix) (use assms in simp)
  then have l: "last (split_slash (kindVerb k @ n @ ''Record'' @ ''.'' @ ext))
          = last (split_slash (kindVerb k @ n)) @ ''Record.'' @ ext"
    by simp
  have nm: "last (split_slash (kindVerb k @ n)) @ (''Record.'' @ ext) \<noteq> []
      \<and> last (split_slash (kindVerb k @ n)) @ (''Record.'' @ ext) \<noteq> ''.''
      \<and> last (split_slash (kindVerb k @ n)) @ (''Record.'' @ ext) \<noteq> ''..''"
    by (rule name_with_suffix) simp
  show ?thesis using last_split_join [OF l] nm by blast
qed

lemma qa_file_last:
  "last (split_slash (path_join d (n @ ''.'' @ kindVerb k @ ''.quickAction-meta.xml'')))
     = last (split_slash n) @ ''.'' @ kindVerb k @ ''.quickAction-meta.xml''"
proof -
  have "last (split_slash (n @ (''.'' @ kindVerb k @ ''.quickAction-meta.xml'')))
          = last (split_slash n) @ (''.'' @ kindVerb k @ ''.quickAction-meta.xml'')"
    by (rule last_split_suffix) (use kindVerb_free [of k] in simp)
  then have l: "last (split_slash (n @ ''.'' @ kindVerb k @ ''.quickAction-meta.xml''))
          = last (split_slash n) @ ''.'' @ kindVerb k @ ''.quickAction-meta.xml''"
    by simp
  have nm: "last (split_slash n) @ (''.'' @ kindVerb k @ ''.quickAction-meta.xml'') \<noteq> []
      \<and> last (split_slash n) @ (''.'' @ kindVerb k @ ''.quickAction-meta.xml'') \<noteq> ''.''
      \<and> last (split_slash n) @ (''.'' @ kindVerb k @ ''.quickAction-meta.xml'') \<noteq> ''..''"
    by (rule name_with_suffix) simp
  show ?thesis using last_split_join [OF l] nm by simp
qed

lemma written_paths_last:
  "map (\<lambda>p. last (split_slash p)) (written_paths k n)
     = map (\<lambda>ext. last (split_slash (kindVerb k @ n)) @ ''Record.'' @ ext)
         [''css'', ''html'', ''js'', ''js-meta.xml'']
       @ [last (split_slash n) @ ''.'' @ kindVerb k @ ''.quickAction-meta.xml'']"
  using lwc_file_last [of "''css''" "lwc_dir (kindVerb k @ n @ ''Record'')" k n]
    lwc_file_last [of "''html''" "lwc_dir (kindVerb k @ n @ ''Record'')" k n]
    lwc_file_last [of "''js''" "lwc_dir (kindVerb k @ n @ ''Record'')" k n]
    lwc_file_last [of "''js-meta.xml''" "lwc_dir (kindVerb k @ n @ ''Record'')" k n]
    qa_file_last [of QA_DESTINATION_DIR n k]
  by (simp add: written_paths_def Let_def TEMPLATE_FILE_EXTENSIONS_def)

lemma last_names_distinct:
  "distinct (map (\<lambda>ext. last (split_slash (kindVerb k @ n)) @ ''Record.'' @ ext)
         [''css'', ''html'', ''js'', ''js-meta.xml'']
       @ [last (split_slash n) @ ''.'' @ kindVerb k @ ''.quickAction-meta.xml''])"
proof (cases "CHR ''/'' \<in> set n")
  case True
  then show ?thesis by (simp add: verb_name_last)
next
  case False
  then have "last (split_slash n) = n" by (simp add: split_no_slash)
  then show ?thesis
    using False by (cases k) (auto simp: verb_name_last dest: arg_cong [where f = length])
qed

lemma written_paths_distinct: "distinct (written_paths k n)"
  using last_names_distinct [of k n] unfolding written_paths_last [symmetric]
  by (simp add: distinct_map)

lemma dir_last_not_file:
  "last (split_slash (kindVerb k @ n)) @ ''Record''
     \<notin> set (map (\<lambda>ext. last (split_slash (kindVerb k @ n)) @ ''Record.'' @ ext)
         [''css'', ''html'', ''js'', ''js-meta.xml'']
       @ [last (split_slash n) @ ''.'' @ kindVerb k @ ''.quickAction-meta.xml''])"
proof (cases "CHR ''/'' \<in> set n")
  case True
  then show ?thesis by (simp add: verb_name_last)
next
  case False
  then have "last (split_slash n) = n" by (simp add: split_no_slash)
  then show ?thesis
    using False by (cases k) (auto simp: verb_name_last dest: arg_cong [where f = length])
qed

lemma qa_last_not_file:
  "''quickActions''
     \<notin> set (map (\<lambda>ext. last (split_slash (kindVerb k @ n)) @ ''Record.'' @ ext)
         [''css'', ''html'', ''js'', ''js-meta.xml'']
       @ [last (split_slash n) @ ''.'' @ kindVerb k @ ''.quickAction-meta.xml''])"
  by (auto dest: arg_cong [where f = rev])

lemma written_paths_no_dir:
  "lwc_dir (kindVerb k @ n @ ''Record'') \<notin> set (written_paths k n)"
  "path_normalize QA_DESTINATION_DIR \<notin> set (written_paths k n)"
proof -
  have a: "p \<notin> set (written_paths k n)"
    if "last (split_slash p) \<notin> set (map (\<lambda>p. last (split_slash p)) (written_paths k n))" for p
    using that by auto
  show "lwc_dir (kindVerb k @ n @ ''Record'') \<notin> set (written_paths k n)"
    by (rule a) (simp only: written_paths_last lwc_dir_last dir_last_not_file not_False_eq_True)
  have q: "last (split_slash (path_normalize QA_DESTINATION_DIR)) = ''quickActions''"
    unfolding qa_dir_normal by code_simp
  show "path_normalize QA_DESTINATION_DIR \<notin> set (written_paths k n)"
    by (rule a) (simp only: written_paths_last q qa_last_not_file not_False_eq_True)
qed

lemma kind_requests_separate: "separate (kind_requests e (new_CodeBuilder uri n fs) k)"
  unfolding separate_def request_paths_written request_dirs
  using written_paths_distinct written_paths_no_dir by simp

lemma lwc_dir_no_ancestor:
  "lwc_dir (kindVerb k @ n @ ''Record'') \<notin> set (ancestors (path_normalize QA_DESTINATION_DIR))"
proof
  assume "lwc_dir (kindVerb k @ n @ ''Record'') \<in> set (ancestors (path_normalize QA_DESTINATION_DIR))"
  then have "lwc_dir (kindVerb k @ n @ ''Record'')
               \<in> {''force-app'', ''force-app/main'', ''force-app/main/default''}"
    unfolding qa_dir_normal qa_dir_ancestors by simp
  then have "last (split_slash (lwc_dir (kindVerb k @ n @ ''Record'')))
               \<in> {''force-app'', ''main'', ''default''}"
    by auto
  then show False
    unfolding lwc_dir_last by (auto dest: arg_cong [where f = rev])
qed

lemma kind_requests_dirs_stay: "dirs_stay (kind_requests e (new_CodeBuilder uri n fs) k)"
proof -
  obtain r1 r2 r3 r4 r5 where rs: "kind_requests e (new_CodeBuilder uri n fs) k = [r1, r2, r3, r4, r5]"
    by (cases k) (simp_all add: requests_def TEMPLATE_FILE_EXTENSIONS_def)
  show ?thesis
    using request_dirs_list [of e uri n fs k] lwc_dir_no_ancestor [of k n]
    unfolding rs by simp
qed

text \<open>
  For a name without a slash, \<open>path.join\<close> has nothing to resolve: the paths of an
  operation are those of the naming convention.
\<close>

lemma destination_stacks:
  "LWC_DESTINATION_DIR = CHR ''.'' # CHR ''/'' # join_slash [''force-app'', ''main'', ''default'', ''lwc'']"
  "QA_DESTINATION_DIR
     = CHR ''.'' # CHR ''/'' # join_slash [''force-app'', ''main'', ''default'', ''quickActions'']"
  "stack_ok True [''force-app'', ''main'', ''default'', ''lwc'']"
  "stack_ok True [''force-app'', ''main'', ''default'', ''quickActions'']"
  by (simp_all add: LWC_DESTINATION_DIR_def QA_DESTINATION_DIR_def stack_ok_def)

lemma base_name:
  "kindVerb k @ n @ ''Record'' @ s \<noteq> [] \<and> kindVerb k @ n @ ''Record'' @ s \<noteq> ''.''
   \<and> kindVerb k @ n @ ''Record'' @ s \<noteq> ''..''"
  using name_with_suffix [of "''Record'' @ s" "kindVerb k @ n"] by simp

lemma lwc_dir_plain:
  assumes "CHR ''/'' \<notin> set n"
  shows "lwc_dir (kindVerb k @ n @ ''Record'')
           = ''force-app/main/default/lwc/'' @ kindVerb k @ n @ ''Record''"
proof -
  have free: "CHR ''/'' \<notin> set (kindVerb k @ n @ ''Record'')"
    using assms kindVerb_free [of k] by simp
  have "path_join (CHR ''.'' # CHR ''/'' # join_slash [''force-app'', ''main'', ''default'', ''lwc''])
          (kindVerb k @ n @ ''Record'')
        = join_slash ([''force-app'', ''main'', ''default'', ''lwc''] @ [kindVerb k @ n @ ''Record''])"
    using base_name [of k n "[]"] free
    by (intro path_join_dot_names destination_stacks) simp_all
  then show ?thesis
    unfolding lwc_dir_def destination_stacks(1) by simp
qed

lemma lwc_file_plain:
  assumes "CHR ''/'' \<notin> set n" and "CHR ''/'' \<notin> set ext"
  shows "path_join (lwc_dir (kindVerb k @ n @ ''Record'')) (kindVerb k @ n @ ''Record'' @ ''.'' @ ext)
           = ''force-app/main/default/lwc/'' @ kindVerb k @ n @ ''Record'' @ ''/''
             @ kindVerb k @ n @ ''Record'' @ ''.'' @ ext"
proof -
  let ?base = "kindVerb k @ n @ ''Record''"
  let ?st = "[''force-app'', ''main'', ''default'', ''lwc'', ?base]"
  have free: "CHR ''/'' \<notin> set ?base" "CHR ''/'' \<notin> set (?base @ ''.'' @ ext)"
    using assms kindVerb_free [of k] by simp_all
  have ok: "stack_ok True ?st"
    using base_name [of k n "[]"] free(1) by (simp add: stack_ok_def)
  have d: "lwc_dir ?base = join_slash ?st"
    using lwc_dir_plain [OF assms(1), of k] by simp
  have "path_join (join_slash ?st) (?base @ ''.'' @ ext) = join_slash (?st @ [?base @ ''.'' @ ext])"
    using base_name [of k n "''.'' @ ext"] free(2)
    by (intro path_join_names ok) simp_all
  then show ?thesis unfolding d by simp
qed

lemma qa_file_plain:
  assumes "CHR ''/'' \<notin> set n"
  shows "path_join QA_DESTINATION_DIR (n @ ''.'' @ kindVerb k @ ''.quickAction-meta.xml'')
           = ''force-app/main/default/quickActions/'' @ n @ ''.'' @ kindVerb k
             @ ''.quickAction-meta.xml''"
proof -
  let ?f = "n @ ''.'' @ kindVerb k @ ''.quickAction-meta.xml''"
  have free: "CHR ''/'' \<notin> set ?f" using assms kindVerb_free [of k] by simp
  have nm: "?f \<noteq> [] \<and> ?f \<noteq> ''.'' \<and> ?f \<noteq> ''..''"
    using name_with_suffix [of "''.'' @ kindVerb k @ ''.quickAction-meta.xml''" n] by simp
  have "path_join (CHR ''.'' # CHR ''/'' # join_slash [''force-app'', ''main'', ''default'', ''quickActions'']) ?f
        = join_slash ([''force-app'', ''main'', ''default'', ''quickActions''] @ [?f])"
    using nm free by (intro path_join_dot_names destination_stacks) simp_all
  then show ?thesis unfolding destination_stacks(2) by simp
qed

lemma written_paths_plain:
  assumes "CHR ''/'' \<notin> set n"
  shows "written_paths k n = convention_paths k n"
  using lwc_file_plain [OF assms, of "''css''" k] lwc_file_plain [OF assms, of "''html''" k]
    lwc_file_plain [OF assms, of "''js''" k] lwc_file_plain [OF assms, of "''js-meta.xml''" k]
    qa_file_plain [OF assms, of k]
  by (simp add: written_paths_def convention_paths_def Let_def TEMPLATE_FILE_EXTENSIONS_def)

subsection \<open>The tree after a generation operation\<close>

lemma generate_file_written:
  assumes "no_failures e" and "p \<in> set (written_paths k n)"
  shows "\<exists>c. nodes (snd (generate e (new_CodeBuilder uri n fs) k w)) p = Some (File c)"
proof -
  let ?rs = "kind_requests e (new_CodeBuilder uri n fs) k"
  from assms(2) obtain r where r: "r \<in> set ?rs" "req_path r = p"
    unfolding request_paths_written [symmetric, of k n e uri fs] by auto
  have "fold (serve e) ?rs (nodes w) (req_path r) = Some (File (req_content r))"
    by (rule fold_serve_no_failure [OF assms(1) kind_requests_separate kind_requests_dirs_stay r(1)])
  then show ?thesis by (auto simp: generate_nodes r(2))
qed

lemma generate_dirs_exist:
  assumes "no_failures e"
  shows "nodes (snd (generate e (new_CodeBuilder uri n fs) k w)) (lwc_dir (kindVerb k @ n @ ''Record'')) \<noteq> None"
    and "nodes (snd (generate e (new_CodeBuilder uri n fs) k w)) (path_normalize QA_DESTINATION_DIR) \<noteq> None"
proof -
  let ?rs = "kind_requests e (new_CodeBuilder uri n fs) k"
  have ex: "fold (serve e) ?rs (nodes w) d \<noteq> None" if "d \<in> set (map req_dir ?rs)" for d
  proof -
    have "d \<in> req_dir ` set ?rs" using that by (simp only: set_map)
    then obtain r where r: "r \<in> set ?rs" "req_dir r = d" by (metis imageE)
    have "\<not> (nodes w (req_dir r) = None \<and> mkdir_fails e (req_dir r))"
      using assms by (simp add: no_failures_def)
    then have "fold (serve e) ?rs (nodes w) (req_dir r) \<noteq> None"
      using r(1) by (rule fold_serve_dir_exists)
    then show ?thesis using r(2) by simp
  qed
  show "nodes (snd (generate e (new_CodeBuilder uri n fs) k w)) (lwc_dir (kindVerb k @ n @ ''Record'')) \<noteq> None"
    unfolding generate_nodes by (rule ex) (simp add: request_dirs_list)
  show "nodes (snd (generate e (new_CodeBuilder uri n fs) k w)) (path_normalize QA_DESTINATION_DIR) \<noteq> None"
    unfolding generate_nodes by (rule ex) (simp add: request_dirs_list)
qed

lemma generate_other_paths:
  assumes "p \<notin> set (written_paths k n)" and "p \<notin> set (created_dirs k n)"
  shows "nodes (snd (generate e (new_CodeBuilder uri n fs) k w)) p = nodes w p"
proof -
  let ?rs = "kind_requests e (new_CodeBuilder uri n fs) k"
  have paths: "p \<notin> req_path ` set ?rs"
    using assms(1) request_paths_written [of e uri n fs k] by (metis set_map)
  have "p \<notin> set (ancestors (req_dir r)) \<and> p \<noteq> req_dir r \<and> p \<noteq> req_path r" if r: "r \<in> set ?rs" for r
  proof -
    have "req_dir r \<in> set (map req_dir ?rs)" using r by simp
    then have "req_dir r = lwc_dir (kindVerb k @ n @ ''Record'')
               \<or> req_dir r = path_normalize QA_DESTINATION_DIR"
      unfolding request_dirs by simp
    then have "p \<notin> set (ancestors (req_dir r)) \<and> p \<noteq> req_dir r"
      using assms(2) by (auto simp: created_dirs_def Let_def)
    then show ?thesis using paths r by auto
  qed
  then show ?thesis by (simp add: generate_nodes fold_serve_other)
qed

lemma generate_outside_paths:
  assumes "p \<notin> set (written_paths k n)"
  shows "nodes (snd (generate e (new_CodeBuilder uri n fs) k w)) p = nodes w p
     \<or> (nodes w p = None
        \<and> nodes (snd (generate e (new_CodeBuilder uri n fs) k w)) p = Some Directory)"
proof -
  let ?rs = "kind_requests e (new_CodeBuilder uri n fs) k"
  have "p \<notin> req_path ` set ?rs"
    using assms request_paths_written [of e uri n fs k] by (metis set_map)
  then show ?thesis unfolding generate_nodes by (rule fold_serve_outside_paths)
qed

lemma no_failures_example: "no_failures example_env"
  by (simp add: no_failures_def example_env_def)

section \<open>The Template Renderer: properties\<close>

subsection \<open>Searching for a marker\<close>

lemma indexOf_skip:
  "\<not> prefix pat (x # xs) \<Longrightarrow> indexOf (x # xs) pat = map_option Suc (indexOf xs pat)"
  by simp

lemma marker_Cons: "marker k = CHR ''/'' # CHR ''/'' # CHR ''/'' # (k @ ''///'')"
  by (simp add: marker_def)

lemma length_marker: "length (marker k) = length k + 6"
  by (simp add: marker_def)

lemma indexOf_Nil_marker: "indexOf [] (marker k) = None"
  by (simp add: marker_Cons)

lemma indexOf_at_marker: "indexOf (marker k @ rest) (marker k) = Some 0"
  by (simp add: marker_Cons)

lemma ends_slash_Cons: "ends_slash (x # s) = (if s = [] then x = CHR ''/'' else ends_slash s)"
  by (simp add: ends_slash_def)

lemma indexOf_shift:
  assumes "indexOf (c @ xs) pat = map_option Suc (indexOf (c' @ xs) pat)"
    and "indexOf (c' @ xs) pat = map_option ((+) (length c')) (indexOf xs pat)"
    and "length c = Suc (length c')"
  shows "indexOf (c @ xs) pat = map_option ((+) (length c)) (indexOf xs pat)"
  using assms by (cases "indexOf xs pat") simp_all

text \<open>A text without slashes holds no start of a marker.\<close>

lemma indexOf_skip_free:
  assumes "CHR ''/'' \<notin> set c"
  shows "indexOf (c @ xs) (marker k) = map_option ((+) (length c)) (indexOf xs (marker k))"
  using assms
proof (induction c)
  case Nil
  then show ?case by (simp add: option.map_ident)
next
  case (Cons x c)
  have "\<not> prefix (marker k) (x # c @ xs)"
    using Cons.prems by (simp add: marker_Cons)
  then have "indexOf ((x # c) @ xs) (marker k) = map_option Suc (indexOf (c @ xs) (marker k))"
    by simp
  moreover have "indexOf (c @ xs) (marker k) = map_option ((+) (length c)) (indexOf xs (marker k))"
    using Cons by simp
  ultimately show ?case by (rule indexOf_shift) simp
qed

text \<open>
  A text without three slashes in a row holds no marker, and no marker starts in it when
  a marker follows.
\<close>

lemma indexOf_no_triple:
  assumes "no_triple c"
  shows "indexOf c (marker k) = None"
  using assms
proof (induction c)
  case Nil
  then show ?case by (simp add: marker_Cons)
next
  case (Cons x c)
  have "\<not> prefix (marker k) (x # c)"
  proof
    assume "prefix (marker k) (x # c)"
    then have "x = CHR ''/'' \<and> prefix ''//'' c"
      by (auto simp: marker_Cons prefix_def)
    then show False using Cons.prems by simp
  qed
  then show ?case using Cons by simp
qed

lemma no_start_in_text:
  assumes "no_triple (x # c)" and "CHR ''/'' \<notin> set k" and "k \<noteq> []"
  shows "\<not> prefix (marker k) (x # c @ marker k' @ rest)"
proof
  assume p: "prefix (marker k) (x # c @ marker k' @ rest)"
  obtain a k2 where k: "k = a # k2" and a: "a \<noteq> CHR ''/''"
    using assms(2,3) by (cases k) auto
  from p have x: "x = CHR ''/''"
    by (simp add: marker_Cons)
  have p2: "prefix (CHR ''/'' # CHR ''/'' # a # k2 @ ''///'') (c @ marker k' @ rest)"
    using p by (auto simp: k marker_Cons [of "a # k2"])
  show False
  proof (cases c)
    case Nil
    then show ?thesis using p2 a by (simp add: marker_Cons)
  next
    case (Cons y c')
    then have y: "y = CHR ''/''" using p2 by auto
    show ?thesis
    proof (cases c')
      case Nil
      then show ?thesis using p2 a by (auto simp: marker_Cons Cons)
    next
      case (Cons z c'')
      then have "z = CHR ''/''" using p2 by (auto simp: \<open>c = y # c'\<close>)
      then show ?thesis using assms(1) x y by (auto simp: \<open>c = y # c'\<close> Cons)
    qed
  qed
qed

lemma indexOf_skip_text:
  assumes "no_triple c" and "CHR ''/'' \<notin> set k" and "k \<noteq> []"
  shows "indexOf (c @ marker k' @ rest) (marker k)
           = map_option ((+) (length c)) (indexOf (marker k' @ rest) (marker k))"
  using assms(1)
proof (induction c)
  case Nil
  then show ?case by (simp add: option.map_ident)
next
  case (Cons x c)
  have "\<not> prefix (marker k) (x # c @ marker k' @ rest)"
    by (rule no_start_in_text [OF Cons.prems assms(2,3)])
  then have "indexOf ((x # c) @ marker k' @ rest) (marker k)
      = map_option Suc (indexOf (c @ marker k' @ rest) (marker k))"
    by simp
  moreover have "indexOf (c @ marker k' @ rest) (marker k)
      = map_option ((+) (length c)) (indexOf (marker k' @ rest) (marker k))"
    using Cons by simp
  ultimately show ?case by (rule indexOf_shift) simp
qed

lemma slash_free_no_adj: "CHR ''/'' \<notin> set s \<Longrightarrow> no_adj s"
  by (induction s) auto

lemma slash_free_ends: "CHR ''/'' \<notin> set s \<Longrightarrow> \<not> ends_slash s"
  by (auto simp: ends_slash_def dest: last_in_set)

lemma slash_free_starts: "CHR ''/'' \<notin> set s \<Longrightarrow> \<not> starts_slash s"
  by (cases s) (auto simp: starts_slash_def)

lemma slash_free_clean: "CHR ''/'' \<notin> set s \<Longrightarrow> clean s"
  by (simp add: clean_def slash_free_no_adj slash_free_ends slash_free_starts)

lemma prefix_key_same:
  assumes "CHR ''/'' \<notin> set k" and "CHR ''/'' \<notin> set k'"
    and "prefix (k @ CHR ''/'' # a) (k' @ CHR ''/'' # b)"
  shows "k = k'"
  using assms
proof (induction k arbitrary: k')
  case Nil
  then show ?case by (cases k') auto
next
  case (Cons x k)
  then show ?case by (cases k') auto
qed

text \<open>
  After the marker of another key, the search goes on behind that marker, unless the
  text that follows makes up a marker with the last slashes of the marker.
\<close>

lemma indexOf_skip_marker:
  assumes "k \<noteq> k'" and "CHR ''/'' \<notin> set k" and "CHR ''/'' \<notin> set k'" and "k' \<noteq> []"
    and "\<not> prefix (k @ ''///'') rest" and "\<not> prefix (''/'' @ k @ ''///'') rest"
    and "\<not> prefix (''//'' @ k @ ''///'') rest"
  shows "indexOf (marker k' @ rest) (marker k)
           = map_option ((+) (length (marker k'))) (indexOf rest (marker k))"
proof -
  obtain y k'' where k': "k' = y # k''" and y: "y \<noteq> CHR ''/''"
    using assms(3,4) by (cases k') auto
  have p0: "\<not> prefix (marker k) (marker k' @ rest)"
  proof
    assume "prefix (marker k) (marker k' @ rest)"
    then have "prefix (k @ CHR ''/'' # ''//'') (k' @ CHR ''/'' # ''//'' @ rest)"
      by (simp add: marker_Cons)
    then show False using prefix_key_same [OF assms(2,3)] assms(1) by blast
  qed
  have skip_key: "indexOf (k' @ ''///'' @ rest) (marker k)
      = map_option ((+) (length k')) (indexOf (''///'' @ rest) (marker k))"
    by (rule indexOf_skip_free [OF assms(3)])
  have tail: "indexOf (''///'' @ rest) (marker k) = map_option ((+) 3) (indexOf rest (marker k))"
  proof -
    have a: "\<not> prefix (marker k) (''///'' @ rest)"
      using assms(5) by (simp add: marker_Cons)
    have b: "\<not> prefix (marker k) (''//'' @ rest)"
      using assms(6) by (cases rest) (simp_all add: marker_Cons)
    have c: "\<not> prefix (marker k) (''/'' @ rest)"
      using assms(7) by (cases rest) (simp_all add: marker_Cons)
    have "indexOf (''///'' @ rest) (marker k) = map_option Suc (indexOf (''//'' @ rest) (marker k))"
      using a by simp
    also have "\<dots> = map_option Suc (map_option Suc (indexOf (''/'' @ rest) (marker k)))"
      using b by simp
    also have "\<dots> = map_option Suc (map_option Suc (map_option Suc (indexOf rest (marker k))))"
      using c by simp
    finally show ?thesis
      by (cases "indexOf rest (marker k)") simp_all
  qed
  have h1: "\<not> prefix (marker k) (''//'' @ k' @ ''///'' @ rest)"
    using y by (simp add: marker_Cons k')
  have h2: "\<not> prefix (marker k) (''/'' @ k' @ ''///'' @ rest)"
    using y by (simp add: marker_Cons k')
  have "indexOf (marker k' @ rest) (marker k)
      = map_option Suc (indexOf (''//'' @ k' @ ''///'' @ rest) (marker k))"
    using p0 by (simp add: marker_Cons)
  also have "\<dots> = map_option Suc (map_option Suc (indexOf (''/'' @ k' @ ''///'' @ rest) (marker k)))"
    using h1 by simp
  also have "\<dots> = map_option Suc (map_option Suc (map_option Suc
      (indexOf (k' @ ''///'' @ rest) (marker k))))"
    using h2 by simp
  finally have "indexOf (marker k' @ rest) (marker k)
      = map_option Suc (map_option Suc (map_option Suc
          (map_option ((+) (length k')) (map_option ((+) 3) (indexOf rest (marker k))))))"
    unfolding skip_key tail .
  then show ?thesis
    by (cases "indexOf rest (marker k)") (simp_all add: length_marker)
qed

subsection \<open>Three slashes in a row\<close>

lemma starts_slash_simps:
  "starts_slash [] = False" "starts_slash (x # s) = (x = CHR ''/'')"
  by (simp_all add: starts_slash_def)

lemma starts_slash_append:
  "starts_slash (a @ b) = (if a = [] then starts_slash b else starts_slash a)"
  by (cases a) (simp_all add: starts_slash_def)

lemma ends_slash_Nil: "ends_slash [] = False"
  by (simp add: ends_slash_def)

lemma ends_slash_append:
  "ends_slash (a @ b) = (if b = [] then ends_slash a else ends_slash b)"
  by (simp add: ends_slash_def)

lemma no_triple_middle: "\<not> no_triple (u @ CHR ''/'' # CHR ''/'' # CHR ''/'' # r)"
  by (induction u) auto

lemma no_triple_appendD: "no_triple (a @ b) \<Longrightarrow> no_triple a \<and> no_triple b"
proof (induction a)
  case Nil
  then show ?case by simp
next
  case (Cons x a)
  have "prefix ''//'' a \<Longrightarrow> prefix ''//'' (a @ b)"
    by (auto simp: prefix_def)
  then show ?case using Cons by auto
qed

lemma no_adj_no_triple: "no_adj s \<Longrightarrow> no_triple s"
proof (induction s)
  case Nil
  then show ?case by simp
next
  case (Cons x s)
  have "prefix ''//'' s \<Longrightarrow> starts_slash s"
    by (cases s) (auto simp: starts_slash_simps)
  then show ?case using Cons by auto
qed

text \<open>
  Joining two texts brings no three slashes together when one of them has no slash at the
  joint; neither does putting a clean text between two texts, nor putting a text behind
  two others when the one in the middle has a character that is not a slash.
\<close>

lemma no_triple_append:
  assumes "no_triple a" and "no_triple b" and "\<not> ends_slash a \<or> \<not> starts_slash b"
  shows "no_triple (a @ b)"
  using assms(1,3)
proof (induction a)
  case Nil
  then show ?case using assms(2) by simp
next
  case (Cons x a)
  have "\<not> ends_slash a \<or> \<not> starts_slash b"
    using Cons.prems(2) by (cases "a = []") (auto simp: ends_slash_Cons ends_slash_Nil)
  then have r: "no_triple (a @ b)" using Cons by simp
  have "\<not> (x = CHR ''/'' \<and> prefix ''//'' (a @ b))"
  proof
    assume h: "x = CHR ''/'' \<and> prefix ''//'' (a @ b)"
    show False
    proof (cases a)
      case Nil
      then have "starts_slash b" using h by (cases b) (auto simp: starts_slash_simps)
      then show ?thesis using Cons.prems(2) h Nil by (auto simp: ends_slash_def)
    next
      case (Cons y a')
      then have y: "y = CHR ''/''" using h by auto
      show ?thesis
      proof (cases a')
        case Nil
        then have "starts_slash b" using h Cons by (cases b) (auto simp: starts_slash_simps)
        then show ?thesis using \<open>\<not> ends_slash (x # a) \<or> \<not> starts_slash b\<close> y Cons Nil
          by (auto simp: ends_slash_def)
      next
        case (Cons z a'')
        then have "z = CHR ''/''" using h \<open>a = y # a'\<close> by auto
        then show ?thesis using \<open>no_triple (x # a)\<close> h y Cons \<open>a = y # a'\<close> by auto
      qed
    qed
  qed
  then show ?case using r by simp
qed

lemma no_triple_insert:
  assumes "no_triple (c @ s)" and "clean v"
  shows "no_triple (c @ v @ s)"
proof (cases "v = []")
  case True
  then show ?thesis using assms(1) by simp
next
  case False
  have s: "no_triple s" and c: "no_triple c"
    using no_triple_appendD [OF assms(1)] by simp_all
  have v: "no_triple v" "\<not> ends_slash v" "\<not> starts_slash v"
    using assms(2) by (simp_all add: clean_def no_adj_no_triple)
  have vs: "no_triple (v @ s)"
    by (rule no_triple_append [OF v(1) s]) (simp add: v(2))
  have st: "\<not> starts_slash (v @ s)" using False v(3) by (simp add: starts_slash_append)
  show ?thesis
    by (rule no_triple_append [OF c vs]) (simp add: st)
qed

lemma no_triple_chain:
  assumes "no_triple (a @ b)" and "no_triple (b @ d)" and "\<exists>x \<in> set b. x \<noteq> CHR ''/''"
  shows "no_triple (a @ b @ d)"
  using assms(1)
proof (induction a)
  case Nil
  then show ?case using assms(2) by simp
next
  case (Cons x a)
  have r: "no_triple (a @ b @ d)" using Cons by simp
  have "\<not> (x = CHR ''/'' \<and> prefix ''//'' (a @ b @ d))"
  proof
    assume h: "x = CHR ''/'' \<and> prefix ''//'' (a @ b @ d)"
    have n: "\<not> prefix ''//'' (a @ b)" using Cons.prems h by simp
    show False
    proof (cases a)
      case Nil
      obtain y b' where b: "b = y # b'" using assms(3) by (cases b) auto
      show ?thesis
      proof (cases b')
        case Nil
        have "y \<noteq> CHR ''/''" using assms(3) by (simp add: b Nil)
        then show ?thesis using h \<open>a = []\<close> b by auto
      next
        case (Cons z b'')
        then show ?thesis using h n \<open>a = []\<close> b by auto
      qed
    next
      case (Cons y a')
      show ?thesis
      proof (cases a')
        case Nil
        obtain z b' where b: "b = z # b'" using assms(3) by (cases b) auto
        show ?thesis using h n Cons Nil b by auto
      next
        case (Cons z a'')
        then show ?thesis using h n \<open>a = y # a'\<close> by auto
      qed
    qed
  qed
  then show ?case using r by simp
qed

lemma clean_no_triple: "clean v \<Longrightarrow> no_triple v"
  by (simp add: clean_def no_adj_no_triple)

subsection \<open>Texts that make up no marker\<close>

lemma no_fake_last:
  assumes "no_triple s"
  shows "\<not> prefix (a @ k @ ''///'') s"
proof
  assume "prefix (a @ k @ ''///'') s"
  then obtain r where "s = (a @ k) @ CHR ''/'' # CHR ''/'' # CHR ''/'' # r"
    by (auto simp: prefix_def)
  then show False using assms no_triple_middle [of "a @ k" r] by simp
qed

lemma no_fake_between:
  assumes "set a \<subseteq> {CHR ''/''}" and "set k \<subseteq> K" and "no_triple s"
    and "\<exists>x \<in> set s. x \<noteq> CHR ''/'' \<and> x \<notin> K"
  shows "\<not> prefix (a @ k @ ''///'') (s @ ''///'' @ f)"
proof
  assume "prefix (a @ k @ ''///'') (s @ ''///'' @ f)"
  then consider "prefix (a @ k @ ''///'') s" | us where "a @ k @ ''///'' = s @ us"
    by (auto simp: prefix_append)
  then show False
  proof cases
    case 1
    then show ?thesis using no_fake_last [OF assms(3)] by blast
  next
    case 2
    then have "set s \<subseteq> set (a @ k @ ''///'')"
      by (metis set_append Un_upper1)
    then have "set s \<subseteq> {CHR ''/''} \<union> K" using assms(1,2) by auto
    then show ?thesis using assms(4) by auto
  qed
qed

subsection \<open>Replacing in a template given by its parts\<close>

lemma fixed_key_shape:
  assumes "k \<in> set fixed_keys"
  shows "CHR ''/'' \<notin> set k" and "k \<noteq> []" and "set k \<subseteq> set (concat fixed_keys)"
proof -
  show "CHR ''/'' \<notin> set k" and "k \<noteq> []"
    using assms by (auto simp: fixed_keys_def)
  show "set k \<subseteq> set (concat fixed_keys)"
    using assms by auto
qed

lemma parts_ok_no_triple: "parts_ok c ps \<Longrightarrow> no_triple c"
proof (cases ps)
  case Nil
  assume "parts_ok c ps"
  then show ?thesis using Nil by simp
next
  case (Cons p ps')
  assume a: "parts_ok c ps"
  obtain k s where "p = (k, s)" by (cases p)
  then show ?thesis using a Cons no_triple_appendD [of c s] by simp
qed

lemma assemble_no_fake:
  assumes "k \<in> set fixed_keys" and "parts_ok s ps" and "ps \<noteq> [] \<longrightarrow> separator s"
    and "set a \<subseteq> {CHR ''/''}"
  shows "\<not> prefix (a @ k @ ''///'') (assemble s ps)"
proof (cases ps)
  case Nil
  have "no_triple s" using assms(2) by (simp add: Nil)
  then show ?thesis using no_fake_last [of s a k] by (simp add: Nil)
next
  case (Cons p ps')
  obtain k2 s2 where p: "p = (k2, s2)" by (cases p)
  have s: "no_triple s" using parts_ok_no_triple [OF assms(2)] .
  have sep: "\<exists>x \<in> set s. x \<noteq> CHR ''/'' \<and> x \<notin> set (concat fixed_keys)"
    using assms(3) by (simp add: Cons separator_def)
  have "\<not> prefix (a @ k @ ''///'') (s @ ''///'' @ (k2 @ ''///'' @ assemble s2 ps'))"
    by (rule no_fake_between [OF assms(4) fixed_key_shape(3) [OF assms(1)] s sep])
  then show ?thesis by (simp add: Cons p marker_def)
qed

lemma indexOf_behind_marker:
  assumes "k \<in> set fixed_keys" and "k' \<in> set fixed_keys" and "k \<noteq> k'"
    and "parts_ok s ps" and "ps \<noteq> [] \<longrightarrow> separator s"
  shows "indexOf (marker k' @ assemble s ps) (marker k)
      = map_option ((+) (length (marker k'))) (indexOf (assemble s ps) (marker k))"
proof -
  have f0: "\<not> prefix (k @ ''///'') (assemble s ps)"
    using assemble_no_fake [OF assms(1,4,5), of "[]"] by simp
  have f1: "\<not> prefix (''/'' @ k @ ''///'') (assemble s ps)"
    by (rule assemble_no_fake [OF assms(1,4,5)]) simp
  have f2: "\<not> prefix (''//'' @ k @ ''///'') (assemble s ps)"
    by (rule assemble_no_fake [OF assms(1,4,5)]) simp
  show ?thesis
    by (rule indexOf_skip_marker [OF assms(3) fixed_key_shape(1) [OF assms(1)]
          fixed_key_shape(1) [OF assms(2)] fixed_key_shape(2) [OF assms(2)] f0 f1 f2])
qed

lemma indexOf_assemble_absent:
  assumes "parts_ok c ps" and "set (map fst ps) \<subseteq> set fixed_keys"
    and "k \<in> set fixed_keys" and "k \<notin> set (map fst ps)"
  shows "indexOf (assemble c ps) (marker k) = None"
  using assms
proof (induction ps arbitrary: c)
  case Nil
  then show ?case by (simp add: indexOf_no_triple)
next
  case (Cons p ps)
  obtain k' s where p: "p = (k', s)" by (cases p)
  have k': "k' \<in> set fixed_keys" "k \<noteq> k'" using Cons.prems by (auto simp: p)
  have s: "parts_ok s ps" "ps \<noteq> [] \<longrightarrow> separator s"
    using Cons.prems(1) by (simp_all add: p)
  have c: "no_triple c" by (rule parts_ok_no_triple [OF Cons.prems(1)])
  have rest: "indexOf (assemble s ps) (marker k) = None"
    using Cons.prems s by (intro Cons.IH) (auto simp: p)
  have m: "indexOf (marker k' @ assemble s ps) (marker k)
      = map_option ((+) (length (marker k'))) (indexOf (assemble s ps) (marker k))"
    by (rule indexOf_behind_marker [OF Cons.prems(3) k' s])
  have "indexOf (c @ marker k' @ assemble s ps) (marker k)
      = map_option ((+) (length c)) (indexOf (marker k' @ assemble s ps) (marker k))"
    by (rule indexOf_skip_text [OF c fixed_key_shape(1,2) [OF Cons.prems(3)]])
  then show ?case by (simp add: p m rest)
qed

lemma getSubstitution_plain: "CHR ''$'' \<notin> set v \<Longrightarrow> getSubstitution m s p v = v"
  by (induction m s p v rule: getSubstitution.induct) auto

lemma js_replace_skip:
  assumes "CHR ''$'' \<notin> set v"
    and "indexOf (a @ b) pat = map_option ((+) (length a)) (indexOf b pat)"
  shows "js_replace (a @ b) pat v = a @ js_replace b pat v"
  using assms by (cases "indexOf b pat") (simp_all add: js_replace_def getSubstitution_plain)

lemma js_replace_assemble:
  assumes "parts_ok c ps" and "set (map fst ps) \<subseteq> set fixed_keys"
    and "k \<in> set fixed_keys" and "CHR ''$'' \<notin> set v"
  shows "js_replace (assemble c ps) (marker k) v
           = assemble (fst (fill c ps k v)) (snd (fill c ps k v))"
  using assms
proof (induction ps arbitrary: c)
  case Nil
  have "indexOf (assemble c []) (marker k) = None"
    using Nil.prems by (intro indexOf_assemble_absent) simp_all
  then show ?case by (simp add: js_replace_def)
next
  case (Cons p ps)
  obtain k' s where p: "p = (k', s)" by (cases p)
  have k': "k' \<in> set fixed_keys" using Cons.prems by (auto simp: p)
  have s: "parts_ok s ps" "ps \<noteq> [] \<longrightarrow> separator s"
    using Cons.prems(1) by (simp_all add: p)
  have c: "no_triple c" by (rule parts_ok_no_triple [OF Cons.prems(1)])
  have "indexOf (c @ marker k' @ assemble s ps) (marker k)
      = map_option ((+) (length c)) (indexOf (marker k' @ assemble s ps) (marker k))"
    by (rule indexOf_skip_text [OF c fixed_key_shape(1,2) [OF Cons.prems(3)]])
  then have skip_c: "js_replace (c @ marker k' @ assemble s ps) (marker k) v
      = c @ js_replace (marker k' @ assemble s ps) (marker k) v"
    by (rule js_replace_skip [OF Cons.prems(4)])
  show ?case
  proof (cases "k' = k")
    case True
    have "js_replace (marker k @ assemble s ps) (marker k) v = v @ assemble s ps"
      using Cons.prems(4)
      by (simp add: js_replace_def indexOf_at_marker getSubstitution_plain)
    then show ?thesis
      using skip_c by (cases ps) (auto simp: p True)
  next
    case False
    have ne: "k \<noteq> k'" using False by auto
    have m: "indexOf (marker k' @ assemble s ps) (marker k)
        = map_option ((+) (length (marker k'))) (indexOf (assemble s ps) (marker k))"
      by (rule indexOf_behind_marker [OF Cons.prems(3) k' ne s])
    have "js_replace (marker k' @ assemble s ps) (marker k) v
        = marker k' @ js_replace (assemble s ps) (marker k) v"
      by (rule js_replace_skip [OF Cons.prems(4) m])
    also have "js_replace (assemble s ps) (marker k) v
        = assemble (fst (fill s ps k v)) (snd (fill s ps k v))"
      using Cons.prems s by (intro Cons.IH) (auto simp: p)
    finally show ?thesis using skip_c False by (simp add: p)
  qed
qed

subsection \<open>Clean texts\<close>

lemma no_adj_append:
  "no_adj (a @ b) = (no_adj a \<and> no_adj b \<and> \<not> (ends_slash a \<and> starts_slash b))"
proof (induction a)
  case Nil
  then show ?case by (simp add: ends_slash_Nil)
next
  case (Cons x a)
  then show ?case
    by (cases a) (auto simp: ends_slash_Cons ends_slash_Nil starts_slash_simps starts_slash_append)
qed

lemma clean_Nil: "clean []"
  by (simp add: clean_def starts_slash_simps ends_slash_Nil)

lemma clean_append: "clean a \<Longrightarrow> clean b \<Longrightarrow> clean (a @ b)"
  by (auto simp: clean_def no_adj_append starts_slash_append ends_slash_append)

lemma separator_append: "separator s \<Longrightarrow> separator (a @ s @ b)"
  by (auto simp: separator_def)

lemma separator_not_slashes: "separator s \<Longrightarrow> \<exists>x \<in> set s. x \<noteq> CHR ''/''"
  by (auto simp: separator_def)

subsection \<open>The parts of the text after a replacement\<close>

lemma fill_keys: "map fst (snd (fill c ps k v)) = remove1 k (map fst ps)"
  by (induction ps arbitrary: c) auto

lemma fill_first_separator:
  assumes "separator c"
  shows "separator (fst (fill c ps k v))"
proof (cases ps)
  case Nil
  then show ?thesis using assms by simp
next
  case (Cons p ps')
  obtain k' s where "p = (k', s)" by (cases p)
  then show ?thesis using separator_append [OF assms, of "[]" "v @ s"] assms by (auto simp: Cons)
qed

lemma fill_rest_empty: "snd (fill c ps k v) \<noteq> [] \<Longrightarrow> ps \<noteq> []"
  by (cases ps) auto

text \<open>Joining the texts on the two sides of a marker around a clean text.\<close>

lemma parts_ok_join:
  assumes "no_triple (c @ s)" and "parts_ok s ps" and "ps \<noteq> [] \<longrightarrow> separator s"
    and "clean v"
  shows "parts_ok (c @ v @ s) ps"
proof (cases ps)
  case Nil
  then show ?thesis using no_triple_insert [OF assms(1,4)] by simp
next
  case (Cons p ps')
  obtain k2 s2 where p: "p = (k2, s2)" by (cases p)
  have s: "no_triple (s @ s2)" "ps' \<noteq> [] \<longrightarrow> separator s2" "parts_ok s2 ps'"
    using assms(2) by (simp_all add: Cons p)
  have sep: "\<exists>x \<in> set s. x \<noteq> CHR ''/''"
    using assms(3) Cons by (simp add: separator_not_slashes)
  have "no_triple ((c @ v) @ s)" using no_triple_insert [OF assms(1,4)] by simp
  then have "no_triple ((c @ v) @ s @ s2)" using s(1) sep by (rule no_triple_chain)
  then show ?thesis using s(2,3) by (simp add: Cons p)
qed

lemma fill_ok:
  assumes "parts_ok c ps" and "clean v"
  shows "parts_ok (fst (fill c ps k v)) (snd (fill c ps k v))"
  using assms(1)
proof (induction ps arbitrary: c)
  case Nil
  then show ?case by simp
next
  case (Cons p ps)
  obtain k' s where p: "p = (k', s)" by (cases p)
  have s: "no_triple (c @ s)" "ps \<noteq> [] \<longrightarrow> separator s" "parts_ok s ps"
    using Cons.prems by (simp_all add: p)
  show ?case
  proof (cases "k' = k")
    case True
    then show ?thesis using parts_ok_join [OF s(1,3,2) assms(2)] by (simp add: p)
  next
    case False
    let ?F = "fst (fill s ps k v)" and ?S = "snd (fill s ps k v)"
    have ih: "parts_ok ?F ?S" by (rule Cons.IH [OF s(3)])
    have sep: "separator ?F" if "?S \<noteq> []"
    proof -
      have "ps \<noteq> []" using that by (rule fill_rest_empty)
      then show ?thesis using s(2) by (simp add: fill_first_separator)
    qed
    have join: "no_triple (c @ ?F)"
    proof (cases ps)
      case Nil
      then show ?thesis using s(1) by simp
    next
      case (Cons q ps')
      obtain k2 s2 where q: "q = (k2, s2)" by (cases q)
      show ?thesis
      proof (cases "k2 = k")
        case False
        then show ?thesis using s(1) by (simp add: Cons q)
      next
        case True
        have F: "?F = s @ v @ s2" using True by (simp add: Cons q)
        have n: "no_triple (s @ (v @ s2))"
          using parts_ok_no_triple [OF ih] F by simp
        have x: "\<exists>x \<in> set s. x \<noteq> CHR ''/''"
          using s(2) Cons by (simp add: separator_not_slashes)
        have "no_triple (c @ s @ (v @ s2))"
          by (rule no_triple_chain [OF s(1) n x])
        then show ?thesis by (simp add: F)
      qed
    qed
    show ?thesis using False join sep ih by (simp add: p)
  qed
qed

lemma render_pairs_assemble:
  assumes "parts_ok c ps" and "set (map fst ps) \<subseteq> set fixed_keys"
    and "distinct (map fst ps)"
    and "\<forall>(k, v) \<in> set tv. k \<in> set fixed_keys \<and> clean v \<and> CHR ''$'' \<notin> set v"
  shows "\<exists>c' ps'. foldl (\<lambda>acc (k, v). js_replace acc (marker k) v) (assemble c ps) tv
                   = assemble c' ps'
           \<and> parts_ok c' ps'
           \<and> set (map fst ps') = set (map fst ps) - set (map fst tv)"
  using assms
proof (induction tv arbitrary: c ps)
  case Nil
  then show ?case by auto
next
  case (Cons p tv)
  obtain k v where p: "p = (k, v)" by (cases p)
  have kv: "k \<in> set fixed_keys" "clean v" "CHR ''$'' \<notin> set v"
    using Cons.prems(4) by (auto simp: p)
  let ?c = "fst (fill c ps k v)" and ?ps = "snd (fill c ps k v)"
  have step: "js_replace (assemble c ps) (marker k) v = assemble ?c ?ps"
    by (rule js_replace_assemble [OF Cons.prems(1,2) kv(1,3)])
  have ok: "parts_ok ?c ?ps"
    by (rule fill_ok [OF Cons.prems(1) kv(2)])
  have keys: "set (map fst ?ps) = set (map fst ps) - {k}" "distinct (map fst ?ps)"
    using Cons.prems(3) by (simp_all add: fill_keys)
  have sub: "set (map fst ?ps) \<subseteq> set fixed_keys"
    using keys(1) Cons.prems(2) by auto
  have rest: "\<forall>(k, v) \<in> set tv. k \<in> set fixed_keys \<and> clean v \<and> CHR ''$'' \<notin> set v"
    using Cons.prems(4) by simp
  obtain c' ps' where r: "foldl (\<lambda>acc (k, v). js_replace acc (marker k) v) (assemble ?c ?ps) tv
                   = assemble c' ps'" "parts_ok c' ps'"
      "set (map fst ps') = set (map fst ?ps) - set (map fst tv)"
    using Cons.IH [OF ok sub keys(2) rest] by blast
  have "set (map fst ps') = set (map fst ps) - set (map fst (p # tv))"
    using r(3) keys(1) by (auto simp: p)
  then show ?case using r(1,2) step by (auto simp: p)
qed

lemma render_pairs:
  assumes "distinct (map fst tv)"
  shows "render t tv = foldl (\<lambda>acc (k, v). js_replace acc (marker k) v) t tv"
proof -
  have "set xs \<subseteq> set tv \<Longrightarrow>
      foldl (\<lambda>acc key. js_replace acc (marker key)
               (case obj_get tv key of Some x \<Rightarrow> x | None \<Rightarrow> ''undefined'')) t (map fst xs)
      = foldl (\<lambda>acc (k, v). js_replace acc (marker k) v) t xs" for xs t
  proof (induction xs arbitrary: t)
    case Nil
    then show ?case by simp
  next
    case (Cons x xs)
    obtain k v where x: "x = (k, v)" by (cases x)
    have "map_of tv k = Some v" using Cons.prems assms by (auto simp: x)
    then show ?case using Cons by (simp add: x obj_get_def)
  qed
  from this [of tv t] show ?thesis by (simp add: render_def obj_keys_def)
qed

subsection \<open>The texts the Variable Generator produces\<close>

lemma upper_char_plain:
  assumes "c \<noteq> x" and "x \<notin> set upper_letters"
  shows "upper_char c \<noteq> x"
proof (cases "map_of (zip lower_letters upper_letters) c")
  case None
  then show ?thesis using assms(1) by (simp add: upper_char_def)
next
  case (Some u)
  then have "u \<in> set upper_letters" by (auto dest: map_of_SomeD set_zip_rightD)
  then show ?thesis using assms(2) Some by (auto simp: upper_char_def)
qed

lemma lower_char_plain:
  assumes "c \<noteq> x" and "x \<notin> set lower_letters"
  shows "lower_char c \<noteq> x"
proof (cases "map_of (zip upper_letters lower_letters) c")
  case None
  then show ?thesis using assms(1) by (simp add: lower_char_def)
next
  case (Some u)
  then have "u \<in> set lower_letters" by (auto dest: map_of_SomeD set_zip_rightD)
  then show ?thesis using assms(2) Some by (auto simp: lower_char_def)
qed

lemma map_case_plain:
  assumes "x \<notin> set f" and "\<And>c. c \<noteq> x \<Longrightarrow> g c \<noteq> x"
  shows "x \<notin> set (map g f)"
proof
  assume "x \<in> set (map g f)"
  then obtain c where c: "c \<in> set f" "g c = x" by auto
  then have "c \<noteq> x" using assms(1) by auto
  then show False using assms(2) c(2) by blast
qed

lemma plain_name_case:
  assumes "plain_name f"
  shows "plain_name (toUpperCase f)" and "plain_name (toLowerCase f)"
proof -
  have u: "CHR ''/'' \<notin> set upper_letters" "CHR ''$'' \<notin> set upper_letters"
    and l: "CHR ''/'' \<notin> set lower_letters" "CHR ''$'' \<notin> set lower_letters"
    by (simp_all add: upper_letters_def lower_letters_def)
  have f: "CHR ''/'' \<notin> set f" "CHR ''$'' \<notin> set f"
    using assms by (simp_all add: plain_name_def)
  have "CHR ''/'' \<notin> set (map upper_char f)"
    by (rule map_case_plain [OF f(1)]) (rule upper_char_plain [OF _ u(1)])
  moreover have "CHR ''$'' \<notin> set (map upper_char f)"
    by (rule map_case_plain [OF f(2)]) (rule upper_char_plain [OF _ u(2)])
  ultimately show "plain_name (toUpperCase f)"
    unfolding plain_name_def toUpperCase_def by blast
  have "CHR ''/'' \<notin> set (map lower_char f)"
    by (rule map_case_plain [OF f(1)]) (rule lower_char_plain [OF _ l(1)])
  moreover have "CHR ''$'' \<notin> set (map lower_char f)"
    by (rule map_case_plain [OF f(2)]) (rule lower_char_plain [OF _ l(2)])
  ultimately show "plain_name (toLowerCase f)"
    unfolding plain_name_def toLowerCase_def by blast
qed

lemma good_plain: "plain_name s \<Longrightarrow> good s"
  by (simp add: good_def plain_name_def slash_free_clean)

lemma good_append: "good a \<Longrightarrow> good b \<Longrightarrow> good (a @ b)"
  by (simp add: good_def clean_append)

lemmas literal_simps = good_def clean_def starts_slash_simps ends_slash_def NL_def TAB_def DQ_def

lemma good_schema_path:
  assumes "plain_name n"
  shows "good (''@salesforce/schema/'' @ n @ ''.'')"
proof -
  have n: "no_adj n" "\<not> starts_slash n" "CHR ''$'' \<notin> set n"
    using assms by (simp_all add: plain_name_def slash_free_no_adj slash_free_starts)
  have "no_adj (''@salesforce/schema'' @ (''/'' @ n) @ ''.'')"
    unfolding no_adj_append using n(1,2)
    by (simp add: starts_slash_simps ends_slash_def starts_slash_append)
  then show ?thesis using n(3) by (simp add: good_def clean_def starts_slash_simps ends_slash_def)
qed

lemma good_field_texts:
  assumes "plain_name n" and "plain_name f"
  shows "good (toUpperCase f @ ''_FIELD'' @ '', '')"
    and "good (''import '' @ (toUpperCase f @ ''_FIELD'') @ '' from '' @ DQ
             @ (''@salesforce/schema/'' @ n @ ''.'') @ f @ DQ @ '';'' @ NL)"
    and "good (''<lightning-input-field field-name={'' @ (toLowerCase f @ ''Field'') @ ''} value={''
             @ toLowerCase f @ ''}></lightning-input-field>'' @ NL @ TAB @ TAB @ TAB @ TAB)"
    and "good (''<lightning-input-field field-name={'' @ (toLowerCase f @ ''Field'')
             @ ''}></lightning-input-field>'' @ NL @ TAB @ TAB @ TAB @ TAB)"
    and "good ((toLowerCase f @ ''Field'') @ '' = '' @ (toUpperCase f @ ''_FIELD'') @ '';'' @ NL @ TAB)"
    and "good (toLowerCase f @ '' = '' @ DQ @ DQ @ '';'' @ NL @ TAB)"
proof -
  note leaves = good_plain [OF assms(2)] good_plain [OF plain_name_case(1) [OF assms(2)]]
    good_plain [OF plain_name_case(2) [OF assms(2)]] good_schema_path [OF assms(1)]
  have lits: "good ''_FIELD''" "good '', ''" "good ''import ''" "good '' from ''" "good DQ"
    "good '';''" "good NL" "good TAB" "good ''<lightning-input-field field-name={''"
    "good ''Field''" "good ''} value={''" "good ''}></lightning-input-field>''" "good '' = ''"
    by (simp_all add: literal_simps)
  show "good (toUpperCase f @ ''_FIELD'' @ '', '')"
    by (intro good_append leaves lits)
  show "good (''import '' @ (toUpperCase f @ ''_FIELD'') @ '' from '' @ DQ
             @ (''@salesforce/schema/'' @ n @ ''.'') @ f @ DQ @ '';'' @ NL)"
    by (intro good_append leaves lits)
  show "good (''<lightning-input-field field-name={'' @ (toLowerCase f @ ''Field'') @ ''} value={''
             @ toLowerCase f @ ''}></lightning-input-field>'' @ NL @ TAB @ TAB @ TAB @ TAB)"
    by (intro good_append leaves lits)
  show "good (''<lightning-input-field field-name={'' @ (toLowerCase f @ ''Field'')
             @ ''}></lightning-input-field>'' @ NL @ TAB @ TAB @ TAB @ TAB)"
    by (intro good_append leaves lits)
  show "good ((toLowerCase f @ ''Field'') @ '' = '' @ (toUpperCase f @ ''_FIELD'') @ '';'' @ NL @ TAB)"
    by (intro good_append leaves lits)
  show "good (toLowerCase f @ '' = '' @ DQ @ DQ @ '';'' @ NL @ TAB)"
    by (intro good_append leaves lits)
qed

lemma good_field_step:
  assumes "plain_name n" and "plain_name f" and "good_accumulators a"
  shows "good_accumulators (field_step n a f)"
proof -
  note t = good_field_texts [OF assms(1,2)]
  have a: "good (acc_fields a)" "good (acc_imports a)" "good (acc_createFieldsHtml a)"
    "good (acc_editFieldsHtml a)" "good (acc_importAliases a)" "good (acc_variableAssignments a)"
    using assms(3) by (simp_all add: good_accumulators_def)
  show ?thesis
    using good_append [OF a(1) t(1)] good_append [OF a(2) t(2)] good_append [OF a(3) t(3)]
      good_append [OF a(4) t(4)] good_append [OF a(5) t(5)] good_append [OF a(6) t(6)]
    by (simp add: good_accumulators_def field_step_def Let_def)
qed

lemma good_foldl_field_step:
  assumes "plain_name n" and "\<forall>f \<in> set fs. plain_name f" and "good_accumulators a"
  shows "good_accumulators (foldl (field_step n) a fs)"
  using assms(2,3)
  by (induction fs arbitrary: a) (simp_all add: good_field_step [OF assms(1)])

lemma good_labels:
  assumes "plain_name n"
  shows "good n" and "good (''LWC for creating a/an '' @ n @ '' instance.'')"
    and "good (''LWC for editing a/an '' @ n @ '' instance.'')"
    and "good (''LWC for viewing a/an '' @ n @ '' instance.'')"
proof -
  have lits: "good ''LWC for creating a/an ''" "good ''LWC for editing a/an ''"
    "good ''LWC for viewing a/an ''" "good '' instance.''"
    by (simp_all add: literal_simps)
  show "good n" by (rule good_plain [OF assms])
  show "good (''LWC for creating a/an '' @ n @ '' instance.'')"
    by (intro good_append good_plain [OF assms] lits)
  show "good (''LWC for editing a/an '' @ n @ '' instance.'')"
    by (intro good_append good_plain [OF assms] lits)
  show "good (''LWC for viewing a/an '' @ n @ '' instance.'')"
    by (intro good_append good_plain [OF assms] lits)
qed

lemma generated_values_good:
  assumes "plain_name n" and "\<forall>f \<in> set fs. plain_name f"
  shows "\<forall>(k, v) \<in> set (templateVariables (new_CodeBuilder uri n fs)).
           k \<in> set fixed_keys \<and> clean v \<and> CHR ''$'' \<notin> set v"
proof -
  have "good_accumulators empty_accumulators"
    by (simp add: good_accumulators_def empty_accumulators_def good_def clean_Nil)
  then have "good_accumulators (foldl (field_step n) empty_accumulators fs)"
    by (rule good_foldl_field_step [OF assms])
  then show ?thesis
    using good_labels [OF assms(1)]
    by (simp add: new_CodeBuilder_def generateTemplateVariables_def Let_def fixed_keys_def
        good_accumulators_def good_def)
qed

subsection \<open>The first occurrence of a pattern\<close>

lemma indexOf_first:
  assumes "pat \<noteq> []"
    and "\<forall>j < length pre. \<not> prefix pat (drop j (pre @ pat @ post))"
  shows "indexOf (pre @ pat @ post) pat = Some (length pre)"
  using assms(2)
proof (induction pre)
  case Nil
  then show ?case using assms(1) by (cases pat) simp_all
next
  case (Cons a pre)
  have "\<not> prefix pat ((a # pre) @ pat @ post)"
    using Cons.prems by (auto dest: spec [of _ 0])
  moreover have "\<forall>j < length pre. \<not> prefix pat (drop j (pre @ pat @ post))"
  proof (intro allI impI)
    fix j assume "j < length pre"
    then have "\<not> prefix pat (drop (Suc j) ((a # pre) @ pat @ post))"
      using Cons.prems by (auto dest: spec [of _ "Suc j"])
    then show "\<not> prefix pat (drop j (pre @ pat @ post))" by simp
  qed
  ultimately show ?case using Cons.IH by simp
qed

lemma indexOf_absent:
  assumes "\<forall>j \<le> length t. \<not> prefix pat (drop j t)"
  shows "indexOf t pat = None"
  using assms
proof (induction t)
  case Nil
  then show ?case by simp
next
  case (Cons a t)
  have "\<not> prefix pat (a # t)"
    using Cons.prems by (auto dest: spec [of _ 0])
  moreover have "\<forall>j \<le> length t. \<not> prefix pat (drop j t)"
  proof (intro allI impI)
    fix j assume "j \<le> length t"
    then have "\<not> prefix pat (drop (Suc j) (a # t))"
      using Cons.prems by (auto dest: spec [of _ "Suc j"])
    then show "\<not> prefix pat (drop j t)" by simp
  qed
  ultimately show ?case using Cons.IH by simp
qed

lemma replace_loop_tail:
  assumes "k \<notin> set (obj_keys rest)" and "set ks \<subseteq> set (obj_keys rest)"
    and "''hasOwnProperty'' \<notin> set (obj_keys ((k, v) # rest))"
  shows "replace_loop ((k, v) # rest) ks t = replace_loop rest ks t"
  using assms(2)
proof (induction ks arbitrary: t)
  case Nil
  then show ?case by simp
next
  case (Cons key ks)
  have "key \<noteq> k" using Cons.prems assms(1) by auto
  then show ?case
    using Cons assms(3) by (simp add: hasOwnProperty_def obj_get_def obj_keys_def)
qed

text \<open>
  Claim C1, as amended. The renderer visits the keys of the map in their order of
  enumeration. At the turn of a key it replaces only the first occurrence of the marker
  \<open>///KEY///\<close> in the text as it stands then, by the value of the key in which the
  replacement patterns of JavaScript are expanded, and goes on with the other keys on the
  result; a value without a dollar sign is put in as it is, and every later occurrence of
  the marker stays as literal text; a key whose marker does not occur leaves the text as
  it is. This holds for a map that has no key named \<open>hasOwnProperty\<close>.
\<close>

theorem render_replaces_first_occurrence_only:
  assumes "''hasOwnProperty'' \<notin> set (obj_keys ((k, v) # rest))"
    and "k \<notin> set (obj_keys rest)"
    and "\<forall>j < length pre. \<not> prefix (marker k) (drop j (pre @ marker k @ post))"
  shows "replaceAllTemplateVariables (pre @ marker k @ post) ((k, v) # rest)
           = replaceAllTemplateVariables
               (pre @ getSubstitution (marker k) (pre @ marker k @ post) (length pre) v @ post) rest
   \<and> (CHR ''$'' \<notin> set v \<longrightarrow>
        replaceAllTemplateVariables (pre @ marker k @ post) ((k, v) # rest)
          = replaceAllTemplateVariables (pre @ v @ post) rest)
   \<and> (CHR ''$'' \<notin> set v \<and> rest = [] \<longrightarrow>
        replaceAllTemplateVariables (pre @ marker k @ post) ((k, v) # rest) = Inr (pre @ v @ post))
   \<and> ((\<forall>j \<le> length t. \<not> prefix (marker k) (drop j t)) \<longrightarrow>
        replaceAllTemplateVariables t ((k, v) # rest) = replaceAllTemplateVariables t rest)"
proof -
  let ?t = "pre @ marker k @ post"
  have pos: "indexOf ?t (marker k) = Some (length pre)"
    using assms(3) by (intro indexOf_first) (simp_all add: marker_def)
  have step: "js_replace ?t (marker k) v
      = pre @ getSubstitution (marker k) ?t (length pre) v @ post"
    by (simp add: js_replace_def pos)
  have own: "hasOwnProperty ((k, v) # rest) k = Inr True"
    using assms(1) by (simp add: hasOwnProperty_def obj_keys_def)
  have turn: "replaceAllTemplateVariables s ((k, v) # rest)
      = replaceAllTemplateVariables (js_replace s (marker k) v) rest" for s
  proof -
    have "replaceAllTemplateVariables s ((k, v) # rest)
        = replace_loop ((k, v) # rest) (obj_keys rest) (js_replace s (marker k) v)"
      by (simp add: replaceAllTemplateVariables_def obj_keys_simps own obj_get_def)
    also have "\<dots> = replaceAllTemplateVariables (js_replace s (marker k) v) rest"
      unfolding replaceAllTemplateVariables_def
      by (rule replace_loop_tail [OF assms(2) _ assms(1)]) simp
    finally show ?thesis .
  qed
  have absent: "replaceAllTemplateVariables t ((k, v) # rest) = replaceAllTemplateVariables t rest"
    if "\<forall>j \<le> length t. \<not> prefix (marker k) (drop j t)"
    using turn [of t] indexOf_absent [OF that] by (simp add: js_replace_def)
  from turn [of ?t] have seq: "replaceAllTemplateVariables ?t ((k, v) # rest)
      = replaceAllTemplateVariables
          (pre @ getSubstitution (marker k) ?t (length pre) v @ post) rest"
    by (simp only: step)
  have plain: "replaceAllTemplateVariables ?t ((k, v) # rest)
      = replaceAllTemplateVariables (pre @ v @ post) rest" if "CHR ''$'' \<notin> set v"
    using seq by (simp only: getSubstitution_plain [OF that])
  have single: "replaceAllTemplateVariables ?t ((k, v) # rest) = Inr (pre @ v @ post)"
    if "CHR ''$'' \<notin> set v" "rest = []"
    using plain [OF that(1)] that(2)
    by (simp add: replaceAllTemplateVariables_def obj_keys_simps)
  show ?thesis using seq plain single absent by blast
qed

theorem render_replaces_first_occurrence_only_witness:
  "replaceAllTemplateVariables ''<b>///NAME///</b> and ///NAME///'' [(''NAME'', ''Account'')]
     = Inr ''<b>Account</b> and ///NAME///''"
proof -
  have first: "\<forall>j < length ''<b>''.
      \<not> prefix (marker ''NAME'') (drop j (''<b>'' @ marker ''NAME'' @ ''</b> and ///NAME///''))"
    by (simp add: marker_def less_Suc_eq numeral_3_eq_3)
  have t: "''<b>'' @ marker ''NAME'' @ ''</b> and ///NAME///'' = ''<b>///NAME///</b> and ///NAME///''"
    by (simp add: marker_def)
  have h1: "''hasOwnProperty'' \<notin> set (obj_keys [(''NAME'', ''Account'')])"
    by (simp add: obj_keys_def)
  have h2: "''NAME'' \<notin> set (obj_keys ([] :: TemplateVariables))"
    by (simp add: obj_keys_def)
  have d: "CHR ''$'' \<notin> set ''Account''"
    by simp
  from render_replaces_first_occurrence_only [OF h1 h2 first] d
  have "replaceAllTemplateVariables (''<b>'' @ marker ''NAME'' @ ''</b> and ///NAME///'')
          [(''NAME'', ''Account'')] = Inr (''<b>'' @ ''Account'' @ ''</b> and ///NAME///'')"
    by blast
  then show ?thesis unfolding t by simp
qed

text \<open>
  Claim C1, as stated, fails: a value put in for an earlier key is searched for the
  markers of the later keys, so the first occurrence of a marker in the template may stay
  while the text put in is replaced; and a value with a replacement pattern is not put in
  as it is.
\<close>

theorem render_first_occurrence_counterexample:
  "replaceAllTemplateVariables ''///A/// ///B/// ///B///'' [(''A'', ''///B///''), (''B'', ''x'')]
     = Inr ''x ///B/// ///B///''
   \<and> replaceAllTemplateVariables ''///A/// ///B/// ///B///'' [(''A'', ''///B///''), (''B'', ''x'')]
     \<noteq> Inr ''///B/// x ///B///''
   \<and> replaceAllTemplateVariables ''///A/// and ///A///'' [(''A'', ''$&'')]
     = Inr ''///A/// and ///A///''
   \<and> replaceAllTemplateVariables ''///A/// and ///A///'' [(''A'', ''$&'')]
     \<noteq> Inr ''$& and ///A///''"
  by (simp add: replaceAllTemplateVariables_def obj_keys_def obj_get_def hasOwnProperty_def
      marker_def js_replace_def)

text \<open>
  Claim C4, as amended. Let the entity name and the field names have no slash and no
  dollar sign, and let the template be made of markers of the ten declared placeholders,
  each at most once and in any order, and of the texts around them, such that the texts
  on the two sides of a marker, put together, hold no three slashes in a row, and the
  text between two markers has a character that is not a slash and occurs in no
  placeholder name. Then rendering the template against the map of the Variable
  Generator gives a text with no marker of any of the ten keys.
\<close>

theorem render_leaves_no_marker:
  assumes "plain_name n" and "\<forall>f \<in> set fs. plain_name f" and "template_ok c ps"
  shows "\<exists>out. replaceAllTemplateVariables (assemble c ps)
                 (templateVariables (new_CodeBuilder uri n fs)) = Inr out
           \<and> (\<forall>k \<in> set fixed_keys. indexOf out (marker k) = None)"
proof -
  let ?tv = "templateVariables (new_CodeBuilder uri n fs)"
  have keys: "map fst ?tv = fixed_keys"
    using obj_keys_new_CodeBuilder [of uri n fs] by (simp add: obj_keys_def)
  have dist: "distinct (map fst ?tv)"
    by (simp add: keys fixed_keys_def)
  have "''hasOwnProperty'' \<notin> set (obj_keys ?tv)"
    using wellformed_new_CodeBuilder [of uri n fs] by (simp add: wellformed_def)
  then have run: "replaceAllTemplateVariables (assemble c ps) ?tv
      = Inr (foldl (\<lambda>acc (k, v). js_replace acc (marker k) v) (assemble c ps) ?tv)"
    by (simp add: replaceAll_ok render_pairs [OF dist])
  have t: "parts_ok c ps" "set (map fst ps) \<subseteq> set fixed_keys" "distinct (map fst ps)"
    using assms(3) by (simp_all add: template_ok_def)
  obtain c' ps' where out: "foldl (\<lambda>acc (k, v). js_replace acc (marker k) v) (assemble c ps) ?tv
        = assemble c' ps'"
    and ok: "parts_ok c' ps'"
    and left: "set (map fst ps') = set (map fst ps) - set (map fst ?tv)"
    using render_pairs_assemble [OF t generated_values_good [OF assms(1,2)]] by blast
  have none: "set (map fst ps') = {}"
    using left t(2) by (auto simp: keys)
  have "indexOf (assemble c' ps') (marker k) = None" if "k \<in> set fixed_keys" for k
    using ok that none by (intro indexOf_assemble_absent) simp_all
  then show ?thesis using run out by simp
qed

theorem render_leaves_no_marker_witness:
  "plain_name ''Account'' \<and> plain_name ''Name'' \<and> plain_name ''AccountId''
   \<and> template_ok ''<template>'' example_template_parts
   \<and> (\<exists>out. replaceAllTemplateVariables (assemble ''<template>'' example_template_parts)
               (templateVariables (new_CodeBuilder ''ext'' ''Account'' [''Name'', ''AccountId'']))
             = Inr out
           \<and> indexOf out (marker ''TEMPLATE_OBJECT_API_NAME'') = None
           \<and> indexOf out (marker ''TEMPLATE_IMPORTS'') = None)
   \<and> template_ok (fst metadata_template_parts) (snd metadata_template_parts)
   \<and> assemble (fst metadata_template_parts) (snd metadata_template_parts)
       = ''<b xmlns=http://x>///TEMPLATE_OBJECT_API_NAME///</b>''
   \<and> (\<exists>out. replaceAllTemplateVariables ''<b xmlns=http://x>///TEMPLATE_OBJECT_API_NAME///</b>''
               (templateVariables (new_CodeBuilder ''ext'' ''Account'' [''Name'', ''AccountId'']))
             = Inr out
           \<and> indexOf out (marker ''TEMPLATE_OBJECT_API_NAME'') = None)
   \<and> template_ok (fst script_template_parts) (snd script_template_parts)
   \<and> (\<exists>out. replaceAllTemplateVariables
               (assemble (fst script_template_parts) (snd script_template_parts))
               (templateVariables (new_CodeBuilder ''ext'' ''Account'' [''Name'', ''AccountId'']))
             = Inr out
           \<and> indexOf out (marker ''TEMPLATE_FIELDS'') = None)
   \<and> template_ok (fst link_template_parts) (snd link_template_parts)
   \<and> assemble (fst link_template_parts) (snd link_template_parts)
       = ''<a href=/lightning/o////TEMPLATE_OBJECT_API_NAME////list>''
   \<and> (\<exists>out. replaceAllTemplateVariables
               ''<a href=/lightning/o////TEMPLATE_OBJECT_API_NAME////list>''
               (templateVariables (new_CodeBuilder ''ext'' ''Account'' [''Name'', ''AccountId'']))
             = Inr out
           \<and> indexOf out (marker ''TEMPLATE_OBJECT_API_NAME'') = None)"
proof -
  have names: "plain_name ''Account''" "plain_name ''Name''" "plain_name ''AccountId''"
    by (simp_all add: plain_name_def)
  have fields: "\<forall>f \<in> set [''Name'', ''AccountId'']. plain_name f"
    using names by simp
  have k: "''TEMPLATE_OBJECT_API_NAME'' \<in> set fixed_keys" "''TEMPLATE_IMPORTS'' \<in> set fixed_keys"
    "''TEMPLATE_FIELDS'' \<in> set fixed_keys"
    by (simp_all add: fixed_keys_def)
  have t1: "template_ok ''<template>'' example_template_parts"
    by (simp add: template_ok_def example_template_parts_def fixed_keys_def separator_def)
  have t2: "template_ok (fst metadata_template_parts) (snd metadata_template_parts)"
    by (simp add: template_ok_def metadata_template_parts_def fixed_keys_def)
  have a2: "assemble (fst metadata_template_parts) (snd metadata_template_parts)
       = ''<b xmlns=http://x>///TEMPLATE_OBJECT_API_NAME///</b>''"
    by (simp add: metadata_template_parts_def marker_def)
  have t3: "template_ok (fst script_template_parts) (snd script_template_parts)"
    by (simp add: template_ok_def script_template_parts_def fixed_keys_def separator_def)
  have t4: "template_ok (fst link_template_parts) (snd link_template_parts)"
    by (simp add: template_ok_def link_template_parts_def fixed_keys_def)
  have a4: "assemble (fst link_template_parts) (snd link_template_parts)
       = ''<a href=/lightning/o////TEMPLATE_OBJECT_API_NAME////list>''"
    by (simp add: link_template_parts_def marker_def)
  have r1: "\<exists>out. replaceAllTemplateVariables (assemble ''<template>'' example_template_parts)
               (templateVariables (new_CodeBuilder ''ext'' ''Account'' [''Name'', ''AccountId'']))
             = Inr out
           \<and> indexOf out (marker ''TEMPLATE_OBJECT_API_NAME'') = None
           \<and> indexOf out (marker ''TEMPLATE_IMPORTS'') = None"
    using render_leaves_no_marker [OF names(1) fields t1, of "''ext''"] k by blast
  have r2: "\<exists>out. replaceAllTemplateVariables ''<b xmlns=http://x>///TEMPLATE_OBJECT_API_NAME///</b>''
               (templateVariables (new_CodeBuilder ''ext'' ''Account'' [''Name'', ''AccountId'']))
             = Inr out
           \<and> indexOf out (marker ''TEMPLATE_OBJECT_API_NAME'') = None"
    using render_leaves_no_marker [OF names(1) fields t2, of "''ext''"] k unfolding a2 by blast
  have r3: "\<exists>out. replaceAllTemplateVariables
               (assemble (fst script_template_parts) (snd script_template_parts))
               (templateVariables (new_CodeBuilder ''ext'' ''Account'' [''Name'', ''AccountId'']))
             = Inr out
           \<and> indexOf out (marker ''TEMPLATE_FIELDS'') = None"
    using render_leaves_no_marker [OF names(1) fields t3, of "''ext''"] k by blast
  have r4: "\<exists>out. replaceAllTemplateVariables
               ''<a href=/lightning/o////TEMPLATE_OBJECT_API_NAME////list>''
               (templateVariables (new_CodeBuilder ''ext'' ''Account'' [''Name'', ''AccountId'']))
             = Inr out
           \<and> indexOf out (marker ''TEMPLATE_OBJECT_API_NAME'') = None"
    using render_leaves_no_marker [OF names(1) fields t4, of "''ext''"] k unfolding a4 by blast
  show ?thesis
    by (intro conjI names t1 r1 t2 a2 r2 t3 r3 t4 a4 r4)
qed

text \<open>
  Claim C4, as stated, fails, and each condition of the amended claim answers one way in
  which it fails. In each of the templates below every one of the ten markers occurs
  exactly once, and the rendered text still has markers. In \<open>junction_template\<close> three
  slashes stand in the text before a marker: for the entity name \<open>FIELDS\<close> and no fields,
  the name put in after \<open>///TEMPLATE_\<close> makes up a marker of \<open>TEMPLATE_FIELDS\<close>
  before the one of the template, and it is that one which the renderer replaces. In
  \<open>tight_template\<close> no text holds a slash, but the text \<open>TEMPLATE_\<close> between two
  markers has no separator, with the same effect. On the template with one marker on each
  line, the entity name \<open>$&\<close> is replaced by the marker itself, and the entity name
  \<open>///TEMPLATE_FIELDS///\<close> is a marker.
\<close>

theorem render_leaves_marker_counterexample:
  "list_all (\<lambda>k. occurrences junction_template (marker k) = 1) fixed_keys
   \<and> replaceAllTemplateVariables junction_template
        (templateVariables (new_CodeBuilder ''ext'' ''FIELDS'' []))
     = Inr ('' LWC for creating a/an FIELDS instance. LWC for editing a/an FIELDS instance.''
            @ '' LWC for viewing a/an FIELDS instance. ///TEMPLATE_FIELDS///     '')
   \<and> occurrences ('' LWC for creating a/an FIELDS instance. LWC for editing a/an FIELDS instance.''
            @ '' LWC for viewing a/an FIELDS instance. ///TEMPLATE_FIELDS///     '')
        (marker ''TEMPLATE_FIELDS'') = 1
   \<and> list_all (\<lambda>k. occurrences tight_template (marker k) = 1) fixed_keys
   \<and> replaceAllTemplateVariables tight_template
        (templateVariables (new_CodeBuilder ''ext'' ''FIELDS'' []))
     = Inr (''///TEMPLATE_IMPORTSTEMPLATE_VARIABLES/// LWC for creating a/an FIELDS instance.''
            @ '' LWC for editing a/an FIELDS instance. LWC for viewing a/an FIELDS instance.''
            @ '' ///TEMPLATE_FIELDS///   '')
   \<and> remaining_markers tight_template
        (templateVariables (new_CodeBuilder ''ext'' ''FIELDS'' [])) = [''TEMPLATE_FIELDS'']
   \<and> list_all (\<lambda>k. occurrences (assemble ''<template>'' example_template_parts) (marker k) = 1)
        fixed_keys
   \<and> remaining_markers (assemble ''<template>'' example_template_parts)
        (templateVariables (new_CodeBuilder ''ext'' ''$&'' []))
     = [''TEMPLATE_OBJECT_API_NAME'', ''TEMPLATE_CREATE_LWC_LABEL'', ''TEMPLATE_EDIT_LWC_LABEL'',
        ''TEMPLATE_VIEW_LWC_LABEL'']
   \<and> remaining_markers (assemble ''<template>'' example_template_parts)
        (templateVariables (new_CodeBuilder ''ext'' ''///TEMPLATE_FIELDS///'' []))
     = [''TEMPLATE_FIELDS'']"
proof -
  have once: "list_all (\<lambda>k. occurrences junction_template (marker k) = 1) fixed_keys"
    by code_simp
  have out: "replaceAllTemplateVariables junction_template
        (templateVariables (new_CodeBuilder ''ext'' ''FIELDS'' []))
     = Inr ('' LWC for creating a/an FIELDS instance. LWC for editing a/an FIELDS instance.''
            @ '' LWC for viewing a/an FIELDS instance. ///TEMPLATE_FIELDS///     '')"
    by code_simp
  have left: "occurrences
        ('' LWC for creating a/an FIELDS instance. LWC for editing a/an FIELDS instance.''
            @ '' LWC for viewing a/an FIELDS instance. ///TEMPLATE_FIELDS///     '')
        (marker ''TEMPLATE_FIELDS'') = 1"
    by code_simp
  have once2: "list_all (\<lambda>k. occurrences tight_template (marker k) = 1) fixed_keys"
    by code_simp
  have out2: "replaceAllTemplateVariables tight_template
        (templateVariables (new_CodeBuilder ''ext'' ''FIELDS'' []))
     = Inr (''///TEMPLATE_IMPORTSTEMPLATE_VARIABLES/// LWC for creating a/an FIELDS instance.''
            @ '' LWC for editing a/an FIELDS instance. LWC for viewing a/an FIELDS instance.''
            @ '' ///TEMPLATE_FIELDS///   '')"
    by code_simp
  have left2: "remaining_markers tight_template
        (templateVariables (new_CodeBuilder ''ext'' ''FIELDS'' [])) = [''TEMPLATE_FIELDS'']"
    by code_simp
  have once3: "list_all (\<lambda>k. occurrences (assemble ''<template>'' example_template_parts) (marker k) = 1)
        fixed_keys"
    by code_simp
  have left3: "remaining_markers (assemble ''<template>'' example_template_parts)
        (templateVariables (new_CodeBuilder ''ext'' ''$&'' []))
     = [''TEMPLATE_OBJECT_API_NAME'', ''TEMPLATE_CREATE_LWC_LABEL'', ''TEMPLATE_EDIT_LWC_LABEL'',
        ''TEMPLATE_VIEW_LWC_LABEL'']"
    by code_simp
  have left4: "remaining_markers (assemble ''<template>'' example_template_parts)
        (templateVariables (new_CodeBuilder ''ext'' ''///TEMPLATE_FIELDS///'' []))
     = [''TEMPLATE_FIELDS'']"
    by code_simp
  show ?thesis
    by (intro conjI once out left once2 out2 left2 once3 left3 left4)
qed

section \<open>The Variable Generator: properties\<close>

lemmas case_defs = toUpperCase_def toLowerCase_def upper_char_def lower_char_def
  upper_letters_def lower_letters_def

lemmas generator_defs = new_CodeBuilder_def generateTemplateVariables_def Let_def obj_get_def
  field_step_def empty_accumulators_def

text \<open>
  Claim C10. For every entity name and every field list, the empty list included, the
  constructor of \<open>CodeBuilder\<close> fills all ten fixed placeholder keys of
  \<open>templateVariables\<close>: the name of the object, the three labels and the six keys of the
  texts accumulated over the fields. When the field list is empty, each of these six keys
  maps to the empty string.
\<close>

theorem constructor_populates_all_keys:
  "obj_keys (templateVariables (new_CodeBuilder uri n fs)) = fixed_keys
   \<and> length fixed_keys = 10 \<and> distinct fixed_keys
   \<and> (\<forall>k \<in> set fixed_keys. obj_get (templateVariables (new_CodeBuilder uri n fs)) k \<noteq> None)
   \<and> (\<forall>k \<in> set accumulator_keys.
         obj_get (templateVariables (new_CodeBuilder uri n [])) k = Some [])"
proof -
  have keys: "obj_keys (templateVariables (new_CodeBuilder uri n fs)) = fixed_keys"
    by (rule obj_keys_new_CodeBuilder)
  have shape: "length fixed_keys = 10 \<and> distinct fixed_keys"
    by (simp add: fixed_keys_def)
  have filled: "\<forall>k \<in> set fixed_keys. obj_get (templateVariables (new_CodeBuilder uri n fs)) k \<noteq> None"
    by (simp add: generator_defs fixed_keys_def)
  have empty: "\<forall>k \<in> set accumulator_keys.
      obj_get (templateVariables (new_CodeBuilder uri n [])) k = Some []"
    by (simp add: generator_defs fixed_keys_def accumulator_keys_def)
  show ?thesis using keys shape filled empty by blast
qed

theorem constructor_populates_all_keys_witness:
  "obj_get (templateVariables (new_CodeBuilder ''ext'' ''Account'' [''Name''])) ''TEMPLATE_IMPORTS'' \<noteq> None
   \<and> obj_get (templateVariables (new_CodeBuilder ''ext'' ''Account'' [])) ''TEMPLATE_IMPORTS'' = Some []"
  using constructor_populates_all_keys [of "''ext''" "''Account''" "[''Name'']"]
    constructor_populates_all_keys [of "''ext''" "''Account''" "[]"]
  by (simp add: fixed_keys_def accumulator_keys_def)

section \<open>The Generation Orchestrator: properties\<close>

text \<open>
  Claim C5. \<open>generateView\<close>, \<open>generateEdit\<close> and \<open>generateCreate\<close> each return true and
  never throw or reject: for every entity name, every field list, every content of the
  template store and every behaviour of the file system (reads of templates, creations of
  directories and writes that fail), the promise they return resolves to true.
\<close>

theorem generate_always_resolves_true:
  "fst (generateView e (new_CodeBuilder uri n fs) w) = Resolved True
   \<and> fst (generateEdit e (new_CodeBuilder uri n fs) w) = Resolved True
   \<and> fst (generateCreate e (new_CodeBuilder uri n fs) w) = Resolved True"
proof -
  have wf: "wellformed (new_CodeBuilder uri n fs)" by (rule wellformed_new_CodeBuilder)
  have "\<And>k. fst (generate e (new_CodeBuilder uri n fs) k w) = Resolved True"
    using resolves_generate [OF wf] unfolding resolves_def by (metis fst_conv)
  from this [of View] this [of Edit] this [of Create] show ?thesis by simp
qed

text \<open>
  Claim C7. For each kind and each entity name \<open>n\<close>, one generation operation writes
  exactly five files: the four files \<open>{kindVerb}{n}Record.{ext}\<close>, for the extensions css,
  html, js and js-meta.xml, in the subdirectory \<open>{kindVerb}{n}Record\<close> of the fixed
  destination directory of the components, and the file
  \<open>{n}.{kindVerb}.quickAction-meta.xml\<close> in the fixed directory of the quick actions.
  The five paths are those that \<open>path.join\<close> computes, and they are distinct; for a name
  without a path separator, which is what the specification assumes of an entity name,
  they are the paths of the naming convention letter for letter. Where no directory
  creation and no write fails, each of the five holds a file after the operation, and the
  two directories exist. In every environment, a path that is not one of the five holds
  what it held before, or a directory where there was nothing; and only the two
  directories of the operation and their ancestors, which \<open>mkdirSync\<close> creates with them,
  can be such new directories.
\<close>

theorem generate_writes_five_files:
  "length (written_paths k n) = 5 \<and> distinct (written_paths k n)
   \<and> (CHR ''/'' \<notin> set n \<longrightarrow> written_paths k n = convention_paths k n)
   \<and> (no_failures e \<longrightarrow>
        (\<forall>p \<in> set (written_paths k n).
           \<exists>c. nodes (snd (generate e (new_CodeBuilder uri n fs) k w)) p = Some (File c))
        \<and> nodes (snd (generate e (new_CodeBuilder uri n fs) k w))
              (lwc_dir (kindVerb k @ n @ ''Record'')) \<noteq> None
        \<and> nodes (snd (generate e (new_CodeBuilder uri n fs) k w))
              (path_normalize QA_DESTINATION_DIR) \<noteq> None)
   \<and> (\<forall>p. p \<notin> set (written_paths k n) \<longrightarrow>
          nodes (snd (generate e (new_CodeBuilder uri n fs) k w)) p = nodes w p
          \<or> (nodes w p = None
             \<and> nodes (snd (generate e (new_CodeBuilder uri n fs) k w)) p = Some Directory))
   \<and> (\<forall>p. p \<notin> set (written_paths k n) \<and> p \<notin> set (created_dirs k n)
           \<longrightarrow> nodes (snd (generate e (new_CodeBuilder uri n fs) k w)) p = nodes w p)"
proof -
  have len: "length (written_paths k n) = 5"
    by (simp add: written_paths_def Let_def TEMPLATE_FILE_EXTENSIONS_def)
  have conv: "CHR ''/'' \<notin> set n \<longrightarrow> written_paths k n = convention_paths k n"
    using written_paths_plain by blast
  have written: "no_failures e \<longrightarrow>
        (\<forall>p \<in> set (written_paths k n).
           \<exists>c. nodes (snd (generate e (new_CodeBuilder uri n fs) k w)) p = Some (File c))
        \<and> nodes (snd (generate e (new_CodeBuilder uri n fs) k w))
              (lwc_dir (kindVerb k @ n @ ''Record'')) \<noteq> None
        \<and> nodes (snd (generate e (new_CodeBuilder uri n fs) k w))
              (path_normalize QA_DESTINATION_DIR) \<noteq> None"
    using generate_file_written generate_dirs_exist by blast
  have outside: "\<forall>p. p \<notin> set (written_paths k n) \<longrightarrow>
          nodes (snd (generate e (new_CodeBuilder uri n fs) k w)) p = nodes w p
          \<or> (nodes w p = None
             \<and> nodes (snd (generate e (new_CodeBuilder uri n fs) k w)) p = Some Directory)"
    using generate_outside_paths by blast
  have others: "\<forall>p. p \<notin> set (written_paths k n) \<and> p \<notin> set (created_dirs k n)
           \<longrightarrow> nodes (snd (generate e (new_CodeBuilder uri n fs) k w)) p = nodes w p"
    using generate_other_paths by blast
  show ?thesis
    by (intro conjI len written_paths_distinct conv written outside others)
qed

theorem generate_writes_five_files_witness:
  "CHR ''/'' \<notin> set ''Account'' \<and> no_failures example_env
   \<and> written_paths View ''Account'' =
       [''force-app/main/default/lwc/viewAccountRecord/viewAccountRecord.css'',
        ''force-app/main/default/lwc/viewAccountRecord/viewAccountRecord.html'',
        ''force-app/main/default/lwc/viewAccountRecord/viewAccountRecord.js'',
        ''force-app/main/default/lwc/viewAccountRecord/viewAccountRecord.js-meta.xml'',
        ''force-app/main/default/quickActions/Account.view.quickAction-meta.xml'']
   \<and> (\<exists>c. nodes (snd (generate example_env (new_CodeBuilder ''ext'' ''Account'' [''Name'', ''AccountId''])
                 View empty_world))
            ''force-app/main/default/lwc/viewAccountRecord/viewAccountRecord.js'' = Some (File c))
   \<and> nodes (snd (generate example_env (new_CodeBuilder ''ext'' ''Account'' [''Name'', ''AccountId''])
                 View empty_world)) ''force-app/main/default/lwc/viewAccountRecord'' \<noteq> None
   \<and> nodes (snd (generate example_env (new_CodeBuilder ''ext'' ''Account'' [''Name'', ''AccountId''])
                 View empty_world)) ''force-app'' \<in> {None, Some Directory}
   \<and> nodes (snd (generate example_env (new_CodeBuilder ''ext'' ''Account'' [''Name'', ''AccountId''])
                 View empty_world)) ''README.md'' = None"
proof -
  have conv: "convention_paths View ''Account'' =
       [''force-app/main/default/lwc/viewAccountRecord/viewAccountRecord.css'',
        ''force-app/main/default/lwc/viewAccountRecord/viewAccountRecord.html'',
        ''force-app/main/default/lwc/viewAccountRecord/viewAccountRecord.js'',
        ''force-app/main/default/lwc/viewAccountRecord/viewAccountRecord.js-meta.xml'',
        ''force-app/main/default/quickActions/Account.view.quickAction-meta.xml'']"
    by (simp add: convention_paths_def)
  have dirs: "created_dirs View ''Account'' =
       [''force-app'', ''force-app/main'', ''force-app/main/default'',
        ''force-app/main/default/lwc'', ''force-app/main/default/lwc/viewAccountRecord'',
        ''force-app'', ''force-app/main'', ''force-app/main/default'',
        ''force-app/main/default/quickActions'']"
    by code_simp
  have dir: "lwc_dir (kindVerb View @ ''Account'' @ ''Record'')
      = ''force-app/main/default/lwc/viewAccountRecord''"
    using lwc_dir_plain [of "''Account''" View] by simp
  have before: "nodes empty_world p = None" for p
    by (simp add: empty_world_def)
  have name: "CHR ''/'' \<notin> set ''Account''" by simp
  have all: "length (written_paths View ''Account'') = 5 \<and> distinct (written_paths View ''Account'')
   \<and> (CHR ''/'' \<notin> set ''Account'' \<longrightarrow> written_paths View ''Account'' = convention_paths View ''Account'')
   \<and> (no_failures example_env \<longrightarrow>
        (\<forall>p \<in> set (written_paths View ''Account'').
           \<exists>c. nodes (snd (generate example_env (new_CodeBuilder ''ext'' ''Account'' [''Name'', ''AccountId'']) View empty_world)) p = Some (File c))
        \<and> nodes (snd (generate example_env (new_CodeBuilder ''ext'' ''Account'' [''Name'', ''AccountId'']) View empty_world))
              (lwc_dir (kindVerb View @ ''Account'' @ ''Record'')) \<noteq> None
        \<and> nodes (snd (generate example_env (new_CodeBuilder ''ext'' ''Account'' [''Name'', ''AccountId'']) View empty_world))
              (path_normalize QA_DESTINATION_DIR) \<noteq> None)
   \<and> (\<forall>p. p \<notin> set (written_paths View ''Account'') \<longrightarrow>
          nodes (snd (generate example_env (new_CodeBuilder ''ext'' ''Account'' [''Name'', ''AccountId'']) View empty_world)) p = nodes empty_world p
          \<or> (nodes empty_world p = None
             \<and> nodes (snd (generate example_env (new_CodeBuilder ''ext'' ''Account'' [''Name'', ''AccountId'']) View empty_world)) p = Some Directory))
   \<and> (\<forall>p. p \<notin> set (written_paths View ''Account'') \<and> p \<notin> set (created_dirs View ''Account'')
           \<longrightarrow> nodes (snd (generate example_env (new_CodeBuilder ''ext'' ''Account'' [''Name'', ''AccountId'']) View empty_world)) p = nodes empty_world p)"
    by (rule generate_writes_five_files)
  have paths: "written_paths View ''Account'' = convention_paths View ''Account''"
    using all name by blast
  have js: "\<exists>c. nodes (snd (generate example_env (new_CodeBuilder ''ext'' ''Account'' [''Name'', ''AccountId''])
                 View empty_world))
            ''force-app/main/default/lwc/viewAccountRecord/viewAccountRecord.js'' = Some (File c)"
    using all no_failures_example unfolding paths conv by simp
  have d: "nodes (snd (generate example_env (new_CodeBuilder ''ext'' ''Account'' [''Name'', ''AccountId''])
                 View empty_world)) ''force-app/main/default/lwc/viewAccountRecord'' \<noteq> None"
    using all no_failures_example unfolding dir by blast
  have "''force-app'' \<notin> set (written_paths View ''Account'')"
    unfolding paths conv by simp
  then have anc: "nodes (snd (generate example_env (new_CodeBuilder ''ext'' ''Account'' [''Name'', ''AccountId''])
                 View empty_world)) ''force-app'' \<in> {None, Some Directory}"
    using all before [of "''force-app''"] by auto
  have "''README.md'' \<notin> set (written_paths View ''Account'')"
    "''README.md'' \<notin> set (created_dirs View ''Account'')"
    unfolding paths conv dirs by simp_all
  then have readme: "nodes (snd (generate example_env (new_CodeBuilder ''ext'' ''Account'' [''Name'', ''AccountId''])
                 View empty_world)) ''README.md'' = None"
    using all before [of "''README.md''"] by simp
  show ?thesis
    using name no_failures_example paths js d anc readme unfolding conv by blast
qed

text \<open>
  Claim C6. Running a generation operation twice for the same entity and kind, with the
  same template store and the same field list, writes byte-identical contents to the same
  paths both times: the second run leaves the tree as the first run left it, and whatever
  two runs, from any two worlds, write at a path is the same content.
\<close>

theorem generate_twice_identical:
  "nodes (snd (generate e (new_CodeBuilder uri n fs) k (snd (generate e (new_CodeBuilder uri n fs) k w))))
     = nodes (snd (generate e (new_CodeBuilder uri n fs) k w))
   \<and> (\<forall>w1 w2 p c1 c2.
         nodes (snd (generate e (new_CodeBuilder uri n fs) k w1)) p = Some (File c1)
         \<and> nodes w1 p \<noteq> Some (File c1)
         \<and> nodes (snd (generate e (new_CodeBuilder uri n fs) k w2)) p = Some (File c2)
         \<and> nodes w2 p \<noteq> Some (File c2)
       \<longrightarrow> c1 = c2)"
proof -
  let ?rs = "kind_requests e (new_CodeBuilder uri n fs) k"
  have sep: "separate ?rs" by (rule kind_requests_separate)
  have stay: "dirs_stay ?rs" by (rule kind_requests_dirs_stay)
  have idem: "nodes (snd (generate e (new_CodeBuilder uri n fs) k
                 (snd (generate e (new_CodeBuilder uri n fs) k w))))
     = nodes (snd (generate e (new_CodeBuilder uri n fs) k w))"
    by (simp add: generate_nodes fold_serve_idem [OF sep stay])
  have same: "c1 = c2"
    if a: "nodes (snd (generate e (new_CodeBuilder uri n fs) k w1)) p = Some (File c1)"
       "nodes w1 p \<noteq> Some (File c1)"
    and b: "nodes (snd (generate e (new_CodeBuilder uri n fs) k w2)) p = Some (File c2)"
       "nodes w2 p \<noteq> Some (File c2)" for w1 w2 p c1 c2
  proof -
    obtain r1 where r1: "r1 \<in> set ?rs" "req_path r1 = p" "req_content r1 = c1"
      using fold_serve_new_file [of e ?rs "nodes w1" p c1] a by (auto simp: generate_nodes)
    obtain r2 where r2: "r2 \<in> set ?rs" "req_path r2 = p" "req_content r2 = c2"
      using fold_serve_new_file [of e ?rs "nodes w2" p c2] b by (auto simp: generate_nodes)
    show ?thesis using separate_content_unique [OF sep r1(1) r2(1)] r1 r2 by simp
  qed
  show ?thesis using idem same by blast
qed

lemma example_quick_action_text:
  "render ''<label>///TEMPLATE_QUICK_ACTION_LABEL///</label>''
     (obj_spread (templateVariables (new_CodeBuilder ''ext'' ''Account'' [''Name'', ''AccountId'']))
        (quickActionVariables ''View'' ''viewAccountRecord'' []))
   = ''<label>View</label>''"
  by (simp add: render_def obj_spread_def quickActionVariables_def generator_defs case_defs
      obj_keys_def marker_def js_replace_def NL_def TAB_def DQ_def)

lemma example_view_action_file:
  "nodes (snd (generate example_env (new_CodeBuilder ''ext'' ''Account'' [''Name'', ''AccountId''])
                 View w))
     ''force-app/main/default/quickActions/Account.view.quickAction-meta.xml''
   = Some (File ''<label>View</label>'')"
proof -
  let ?cb = "new_CodeBuilder ''ext'' ''Account'' [''Name'', ''AccountId'']"
  let ?r = "qa_request example_env ?cb ''View'' ''viewAccountRecord'' []"
  have mem: "?r \<in> set (kind_requests example_env ?cb View)"
    by (simp add: requests_def objectApiName_new_CodeBuilder)
  have path: "req_path ?r = ''force-app/main/default/quickActions/Account.view.quickAction-meta.xml''"
    by (simp add: qa_request_def req_defs api_name_new_CodeBuilder to_lower_labels path_defs)
  have content: "req_content ?r = ''<label>View</label>''"
    using example_quick_action_text
    by (simp add: qa_request_def req_defs read_text_def example_env_def)
  have "fold (serve example_env) (kind_requests example_env ?cb View) (nodes w) (req_path ?r)
      = Some (File (req_content ?r))"
    by (rule fold_serve_no_failure
          [OF no_failures_example kind_requests_separate kind_requests_dirs_stay mem])
  then show ?thesis unfolding generate_nodes path content .
qed

theorem generate_twice_identical_witness:
  "nodes (snd (generate example_env (new_CodeBuilder ''ext'' ''Account'' [''Name'', ''AccountId''])
                 View empty_world))
       ''force-app/main/default/quickActions/Account.view.quickAction-meta.xml''
     = Some (File ''<label>View</label>'')
   \<and> nodes empty_world ''force-app/main/default/quickActions/Account.view.quickAction-meta.xml''
     \<noteq> Some (File ''<label>View</label>'')
   \<and> nodes (snd (generate example_env (new_CodeBuilder ''ext'' ''Account'' [''Name'', ''AccountId''])
                 View
                 (empty_world\<lparr>nodes := (nodes empty_world)
                    (''force-app/main/default/quickActions/Account.view.quickAction-meta.xml''
                       \<mapsto> File ''edited by hand'')\<rparr>)))
       ''force-app/main/default/quickActions/Account.view.quickAction-meta.xml''
     = Some (File ''<label>View</label>'')
   \<and> nodes (snd (generate example_env (new_CodeBuilder ''ext'' ''Account'' [''Name'', ''AccountId''])
                 View
                 (snd (generate example_env
                         (new_CodeBuilder ''ext'' ''Account'' [''Name'', ''AccountId'']) View
                         empty_world))))
     = nodes (snd (generate example_env (new_CodeBuilder ''ext'' ''Account'' [''Name'', ''AccountId''])
                 View empty_world))"
  using generate_twice_identical [of example_env "''ext''" "''Account''" "[''Name'', ''AccountId'']"
      View empty_world]
    example_view_action_file
  by (simp add: empty_world_def)

text \<open>
  Claim C8. For the entity \<open>Account\<close> and the fields \<open>Name\<close> and \<open>AccountId\<close>, the
  Variable Generator gives \<open>TEMPLATE_FIELDS\<close> the text \<open>NAME_FIELD, ACCOUNTID_FIELD, \<close>
  and \<open>TEMPLATE_IMPORTS\<close> exactly two lines, which import \<open>NAME_FIELD\<close> from
  \<open>@salesforce/schema/Account.Name\<close> and \<open>ACCOUNTID_FIELD\<close> from
  \<open>@salesforce/schema/Account.AccountId\<close>; and the action file of the kind View is
  written under the name \<open>Account.view.quickAction-meta.xml\<close> in the directory of the
  quick actions.
\<close>

theorem account_end_to_end:
  \<open>obj_get (templateVariables (new_CodeBuilder uri ''Account'' [''Name'', ''AccountId'']))
      ''TEMPLATE_FIELDS'' = Some ''NAME_FIELD, ACCOUNTID_FIELD, ''
   \<and> obj_get (templateVariables (new_CodeBuilder uri ''Account'' [''Name'', ''AccountId'']))
      ''TEMPLATE_IMPORTS''
      = Some (''import NAME_FIELD from "@salesforce/schema/Account.Name";'' @ [CHR 0x0A]
              @ ''import ACCOUNTID_FIELD from "@salesforce/schema/Account.AccountId";'' @ [CHR 0x0A])
   \<and> (no_failures e \<longrightarrow>
        (\<exists>c. nodes (snd (generateView e (new_CodeBuilder uri ''Account'' [''Name'', ''AccountId'']) w))
               (path_join QA_DESTINATION_DIR ''Account.view.quickAction-meta.xml'')
             = Some (File c)))\<close>
proof -
  have flds: "obj_get (templateVariables (new_CodeBuilder uri ''Account'' [''Name'', ''AccountId'']))
      ''TEMPLATE_FIELDS'' = Some ''NAME_FIELD, ACCOUNTID_FIELD, ''"
    by (simp add: generator_defs case_defs)
  have imps: \<open>obj_get (templateVariables (new_CodeBuilder uri ''Account'' [''Name'', ''AccountId'']))
      ''TEMPLATE_IMPORTS''
      = Some (''import NAME_FIELD from "@salesforce/schema/Account.Name";'' @ [CHR 0x0A]
              @ ''import ACCOUNTID_FIELD from "@salesforce/schema/Account.AccountId";'' @ [CHR 0x0A])\<close>
    by (simp add: generator_defs case_defs NL_def DQ_def)
  have mem: "path_join QA_DESTINATION_DIR ''Account.view.quickAction-meta.xml''
      \<in> set (written_paths View ''Account'')"
    by (simp add: written_paths_def Let_def)
  have wr: "\<exists>c. nodes (snd (generateView e (new_CodeBuilder uri ''Account'' [''Name'', ''AccountId'']) w))
               (path_join QA_DESTINATION_DIR ''Account.view.quickAction-meta.xml'') = Some (File c)"
    if "no_failures e"
    using generate_file_written [OF that mem, of uri "[''Name'', ''AccountId'']" w] by simp
  show ?thesis using flds imps wr by blast
qed

theorem account_end_to_end_witness:
  "no_failures example_env
   \<and> (\<exists>c. nodes (snd (generateView example_env
                       (new_CodeBuilder ''ext'' ''Account'' [''Name'', ''AccountId'']) empty_world))
             ''force-app/main/default/quickActions/Account.view.quickAction-meta.xml''
           = Some (File c))"
proof -
  have p: "path_join QA_DESTINATION_DIR ''Account.view.quickAction-meta.xml''
      = ''force-app/main/default/quickActions/Account.view.quickAction-meta.xml''"
    by (simp add: path_defs)
  show ?thesis
    using account_end_to_end [of "''ext''" example_env empty_world] no_failures_example
    unfolding p by simp
qed

section \<open>The Reconciliation Driver: properties\<close>

text \<open>
  Claim C9. For every entity name and every kind string, the existence probe returns true
  if and only if the conventional path \<open>{entity}.{kind}.quickAction-meta.xml\<close> under the
  fixed directory of the quick actions exists and is a regular file; whenever the access
  to the file system fails, for whatever reason, it returns false, and no error reaches
  the caller.
\<close>

theorem probe_true_iff_regular_file:
  "checkForExistingQuickAction e w sobject qaName =
     (\<exists>st. fs_statSync e w
              (path_join QA_DESTINATION_DIR (sobject @ ''.'' @ qaName @ ''.quickAction-meta.xml''))
             = Inr st \<and> isFile st)
   \<and> checkForExistingQuickAction e w sobject qaName =
     (\<not> stat_fails e
          (path_join QA_DESTINATION_DIR (sobject @ ''.'' @ qaName @ ''.quickAction-meta.xml''))
      \<and> (\<exists>c. nodes w
                (path_join QA_DESTINATION_DIR (sobject @ ''.'' @ qaName @ ''.quickAction-meta.xml''))
             = Some (File c)))
   \<and> ((\<exists>err. fs_statSync e w
              (path_join QA_DESTINATION_DIR (sobject @ ''.'' @ qaName @ ''.quickAction-meta.xml''))
             = Inl err)
        \<longrightarrow> checkForExistingQuickAction e w sobject qaName = False)"
proof -
  let ?f = "sobject @ ''.'' @ qaName @ ''.quickAction-meta.xml''"
  have "path_join QA_DESTINATION_DIR ?f
          = path_normalize (CHR ''.'' # CHR ''/'' # (''force-app/main/default/quickActions/'' @ ?f))"
    by (simp add: path_join_def QA_DESTINATION_DIR_def)
  also have "\<dots> = path_normalize (''force-app/main/default/quickActions/'' @ ?f)"
    by (rule path_normalize_dot_slash) simp_all
  finally have key: "path_normalize (''force-app/main/default/quickActions/'' @ ?f)
      = path_join QA_DESTINATION_DIR ?f"
    by simp
  show ?thesis
    unfolding checkForExistingQuickAction_def fs_statSync_def Let_def key path_join_normal
    by (auto split: option.splits node.splits)
qed

theorem probe_true_iff_regular_file_witness:
  "fs_statSync example_env empty_world
      (path_join QA_DESTINATION_DIR (''Account'' @ ''.'' @ ''view'' @ ''.quickAction-meta.xml''))
     = Inl (FsError ''ENOENT'')
   \<and> checkForExistingQuickAction example_env empty_world ''Account'' ''view'' = False"
proof -
  have "fs_statSync example_env empty_world
      (path_join QA_DESTINATION_DIR (''Account'' @ ''.'' @ ''view'' @ ''.quickAction-meta.xml''))
     = Inl (FsError ''ENOENT'')"
    by (simp add: fs_statSync_def example_env_def empty_world_def)
  then show ?thesis
    using probe_true_iff_regular_file [of example_env empty_world "''Account''" "''view''"]
    by blast
qed

subsection \<open>The driver resolves and records the operations it invokes\<close>

lemma resolves_await:
  assumes "resolves m x T tr" and "resolves k y T' tr'" and "f x = k"
  shows "resolves (await m f) y (T' \<circ> T) (tr @ tr')"
  unfolding resolves_def
proof
  fix w
  from assms(1) obtain w1 where 1: "m w = (Resolved x, w1)" "nodes w1 = T (nodes w)"
      "op_trace w1 = op_trace w @ tr"
    unfolding resolves_def by blast
  from assms(2) obtain w2 where 2: "k w1 = (Resolved y, w2)" "nodes w2 = T' (nodes w1)"
      "op_trace w2 = op_trace w1 @ tr'"
    unfolding resolves_def by blast
  show "\<exists>w'. await m f w = (Resolved y, w') \<and> nodes w' = (T' \<circ> T) (nodes w)
          \<and> op_trace w' = op_trace w @ tr @ tr'"
    using 1 2 assms(3) by (simp add: await_def)
qed

lemma resolves_unit: "resolves (\<lambda>w. (Resolved x, w)) x id []"
  by (simp add: resolves_def)

lemma resolves_optional:
  assumes "wellformed this"
  shows "\<exists>T. resolves (if b then await (generate e this k) (\<lambda>_ w. (Resolved (), w))
                       else (\<lambda>w. (Resolved (), w)))
            () T (if b then [(op_name k, objectApiName this)] else [])"
proof (cases b)
  case True
  have "resolves (await (generate e this k) (\<lambda>_ w. (Resolved (), w))) ()
          (id \<circ> fold (serve e) (kind_requests e this k)) ([(op_name k, objectApiName this)] @ [])"
    by (rule resolves_await [OF resolves_generate [OF assms] resolves_unit]) simp
  with True show ?thesis by auto
next
  case False
  then show ?thesis using resolves_unit [of "()"] by auto
qed

lemma resolves_generate_for:
  "\<exists>T. resolves (generate_for e uri (s, qa)) () T (missing_ops s qa)"
proof -
  let ?cb = "new_CodeBuilder uri s [''Name'', ''AccountId'']"
  let ?opt = "\<lambda>b k. if b then await (generate e ?cb k) (\<lambda>_ w. (Resolved (), w))
                      else (\<lambda>w. (Resolved (), w))"
  let ?tr = "\<lambda>b k. if b then [(op_name k, objectApiName ?cb)] else []"
  have wf: "wellformed ?cb" by (rule wellformed_new_CodeBuilder)
  obtain T1 where 1: "resolves (?opt (\<not> view qa) View) () T1 (?tr (\<not> view qa) View)"
    using resolves_optional [OF wf] by blast
  obtain T2 where 2: "resolves (?opt (\<not> edit qa) Edit) () T2 (?tr (\<not> edit qa) Edit)"
    using resolves_optional [OF wf] by blast
  obtain T3 where 3: "resolves (?opt (\<not> create qa) Create) () T3 (?tr (\<not> create qa) Create)"
    using resolves_optional [OF wf] by blast
  have all: "resolves
      (await (?opt (\<not> view qa) View) (\<lambda>_. await (?opt (\<not> edit qa) Edit) (\<lambda>_.
         ?opt (\<not> create qa) Create)))
      () ((T3 \<circ> T2) \<circ> T1)
      (?tr (\<not> view qa) View @ ?tr (\<not> edit qa) Edit @ ?tr (\<not> create qa) Create)"
    by (rule resolves_await [OF 1 resolves_await [OF 2 3]]) simp_all
  show ?thesis
  proof (cases "\<not> create qa \<or> \<not> edit qa \<or> \<not> view qa")
    case True
    then have "generate_for e uri (s, qa) =
      (await (?opt (\<not> view qa) View) (\<lambda>_. await (?opt (\<not> edit qa) Edit) (\<lambda>_.
         ?opt (\<not> create qa) Create)))"
      by (simp add: generate_for_def Let_def)
    with all show ?thesis by (auto simp: missing_ops_def objectApiName_new_CodeBuilder)
  next
    case False
    then have "generate_for e uri (s, qa) = (\<lambda>w. (Resolved (), w))"
      by (simp add: generate_for_def Let_def)
    with False resolves_unit [of "()"] show ?thesis by (auto simp: missing_ops_def)
  qed
qed

lemma resolves_generate_loop:
  "\<exists>T. resolves (generate_loop e uri entries) () T
          (concat (map (\<lambda>(s, qa). missing_ops s qa) entries))"
proof (induction entries)
  case Nil
  then show ?case using resolves_unit [of "()"] by auto
next
  case (Cons entry entries)
  obtain s qa where entry: "entry = (s, qa)" by (cases entry)
  obtain T1 where 1: "resolves (generate_for e uri (s, qa)) () T1 (missing_ops s qa)"
    using resolves_generate_for by blast
  from Cons obtain T2 where 2: "resolves (generate_loop e uri entries) () T2
      (concat (map (\<lambda>(s, qa). missing_ops s qa) entries))" by blast
  have "resolves (generate_loop e uri (entry # entries)) () (T2 \<circ> T1)
      (missing_ops s qa @ concat (map (\<lambda>(s, qa). missing_ops s qa) entries))"
    unfolding generate_loop.simps entry by (rule resolves_await [OF 1 2]) simp
  then show ?case by (auto simp: entry)
qed

lemma checkForExistingQuickActions_names:
  assumes "static_resources_dir e = Inr d" and "landing_page e = Inr names"
  shows "checkForExistingQuickActions e w
           = (Resolved \<lparr>error = None, sobjects = probe_all e w names\<rparr>, w)"
  using assms
  by (simp add: checkForExistingQuickActions_def await_def getSObjectsFromLandingPage_def
      probe_all_def)

text \<open>
  The probe of all objects resolves, or stays pending when the directory of the static
  resources cannot be found; it changes neither the tree nor the trace.
\<close>

lemma checkForExistingQuickActions_frame:
  "\<exists>p w'. checkForExistingQuickActions e w = (p, w') \<and> (\<forall>err. p \<noteq> Rejected err)
          \<and> nodes w' = nodes w \<and> op_trace w' = op_trace w"
  by (cases "static_resources_dir e"; cases "landing_page e")
     (auto simp: checkForExistingQuickActions_def await_def getSObjectsFromLandingPage_def)

lemma generateMissing_unfold:
  assumes "generate_loop e uri (sobjects st) w = (Resolved (), w1)"
  shows "generateMissingLwcsAndQuickActions e uri st w = checkForExistingQuickActions e w1"
proof -
  obtain p w2 where c: "checkForExistingQuickActions e w1 = (p, w2)" "\<forall>err. p \<noteq> Rejected err"
    using checkForExistingQuickActions_frame by blast
  show ?thesis using assms c
    by (cases p) (simp_all add: generateMissingLwcsAndQuickActions_def await_def)
qed

text \<open>
  Claim C3. For every entity whose status has at least one of the three booleans false,
  the driver invokes the generation operations of exactly the kinds whose boolean is
  false, and none for a kind marked present; for the status with view true, edit false and
  create true it invokes exactly one operation for that entity, \<open>generateEdit\<close>. The
  operations a run of the driver starts are, entity after entity, those of
  \<open>missing_ops\<close>.
\<close>

theorem driver_generates_missing_kinds_only:
  "op_trace (snd (generateMissingLwcsAndQuickActions e uri st w))
     = op_trace w @ concat (map (\<lambda>(sobject, qa). missing_ops sobject qa) (sobjects st))
   \<and> missing_ops sobject \<lparr>view = True, edit = False, create = True\<rparr> = [(''generateEdit'', sobject)]
   \<and> op_trace (snd (generateMissingLwcsAndQuickActions e uri
        \<lparr>error = None, sobjects = [(sobject, \<lparr>view = True, edit = False, create = True\<rparr>)]\<rparr> w))
     = op_trace w @ [(''generateEdit'', sobject)]"
proof -
  have run: "op_trace (snd (generateMissingLwcsAndQuickActions e uri s w))
     = op_trace w @ concat (map (\<lambda>(sobject, qa). missing_ops sobject qa) (sobjects s))" for s
  proof -
    obtain T where "resolves (generate_loop e uri (sobjects s)) () T
        (concat (map (\<lambda>(s, qa). missing_ops s qa) (sobjects s)))"
      using resolves_generate_loop by blast
    then obtain w1 where 1: "generate_loop e uri (sobjects s) w = (Resolved (), w1)"
      and 2: "op_trace w1 = op_trace w @ concat (map (\<lambda>(s, qa). missing_ops s qa) (sobjects s))"
      unfolding resolves_def by blast
    obtain r w2 where 3: "checkForExistingQuickActions e w1 = (r, w2)"
      and 4: "op_trace w2 = op_trace w1"
      using checkForExistingQuickActions_frame by blast
    have "op_trace (snd (generateMissingLwcsAndQuickActions e uri s w)) = op_trace w2"
      by (simp add: generateMissing_unfold [OF 1] 3)
    then show ?thesis using 2 4 by simp
  qed
  have one: "missing_ops sobject \<lparr>view = True, edit = False, create = True\<rparr>
      = [(''generateEdit'', sobject)]"
    by (simp add: missing_ops_def)
  show ?thesis
    using run [of st]
      run [of "\<lparr>error = None, sobjects = [(sobject, \<lparr>view = True, edit = False, create = True\<rparr>)]\<rparr>"]
      one
    by simp
qed

text \<open>
  Claim C2, at a concrete input. The input mapping has the single entity \<open>Contact\<close>, and
  the landing page lists the single object \<open>Account\<close>. The driver generates the missing
  edit artifacts of \<open>Contact\<close>, and the mapping it returns has the single key \<open>Account\<close>:
  the entities of the input are passed to \<open>checkForExistingQuickActions\<close>, which has no
  parameter and probes the objects of the landing page.
\<close>

theorem reprobe_ignores_input_entities:
  "fst (generateMissingLwcsAndQuickActions example_env ''ext''
          \<lparr>error = None, sobjects = [(''Contact'', \<lparr>view = True, edit = False, create = True\<rparr>)]\<rparr>
          empty_world)
     = Resolved \<lparr>error = None,
                 sobjects = [(''Account'', \<lparr>view = False, edit = False, create = False\<rparr>)]\<rparr>"
proof -
  let ?cb = "new_CodeBuilder ''ext'' ''Contact'' [''Name'', ''AccountId'']"
  let ?st = "\<lparr>error = None, sobjects = [(''Contact'', \<lparr>view = True, edit = False, create = True\<rparr>)]\<rparr>"
  obtain w1 where g: "generate example_env ?cb Edit empty_world = (Resolved True, w1)"
    using resolves_generate [OF wellformed_new_CodeBuilder, of example_env "''ext''" "''Contact''"
        "[''Name'', ''AccountId'']" Edit]
    unfolding resolves_def by blast
  have n1: "nodes w1 = nodes (snd (generate example_env ?cb Edit empty_world))"
    by (simp only: g snd_conv)
  have loop: "generate_loop example_env ''ext'' (sobjects ?st) empty_world = (Resolved (), w1)"
    using g by (simp add: generate_for_def Let_def await_def)
  have paths: "written_paths Edit ''Contact'' = convention_paths Edit ''Contact''"
    by (rule written_paths_plain) simp
  have dirs: "created_dirs Edit ''Contact'' =
       [''force-app'', ''force-app/main'', ''force-app/main/default'',
        ''force-app/main/default/lwc'', ''force-app/main/default/lwc/editContactRecord'',
        ''force-app'', ''force-app/main'', ''force-app/main/default'',
        ''force-app/main/default/quickActions'']"
    by code_simp
  have untouched: "nodes w1 (''force-app/main/default/quickActions/Account.'' @ q
      @ ''.quickAction-meta.xml'') = None" for q
    unfolding n1
    by (subst generate_other_paths)
       (simp_all add: paths dirs convention_paths_def empty_world_def)
  have keys: "path_normalize ''force-app/main/default/quickActions/Account.view.quickAction-meta.xml''
      = ''force-app/main/default/quickActions/Account.'' @ ''view'' @ ''.quickAction-meta.xml''"
    "path_normalize ''force-app/main/default/quickActions/Account.edit.quickAction-meta.xml''
      = ''force-app/main/default/quickActions/Account.'' @ ''edit'' @ ''.quickAction-meta.xml''"
    "path_normalize ''force-app/main/default/quickActions/Account.create.quickAction-meta.xml''
      = ''force-app/main/default/quickActions/Account.'' @ ''create'' @ ''.quickAction-meta.xml''"
    by code_simp+
  have probe: "checkForExistingQuickAction example_env w1 ''Account'' q = False"
    if "q \<in> {''view'', ''edit'', ''create''}" for q
    using that untouched [of "''view''"] untouched [of "''edit''"] untouched [of "''create''"]
      keys
    by (auto simp: checkForExistingQuickAction_def fs_statSync_def Let_def)
  have "generateMissingLwcsAndQuickActions example_env ''ext'' ?st empty_world
      = checkForExistingQuickActions example_env w1"
    by (rule generateMissing_unfold [OF loop])
  also have "\<dots> = (Resolved \<lparr>error = None, sobjects = probe_all example_env w1 [''Account'']\<rparr>, w1)"
    by (rule checkForExistingQuickActions_names) (simp_all add: example_env_def)
  finally show ?thesis by (simp add: probe_all_def probe)
qed

theorem driver_generates_missing_kinds_only_witness:
  "op_trace (snd (generateMissingLwcsAndQuickActions example_env ''ext''
      \<lparr>error = None,
       sobjects = [(''Account'', \<lparr>view = True, edit = True, create = True\<rparr>),
                   (''Contact'', \<lparr>view = False, edit = True, create = False\<rparr>)]\<rparr> empty_world))
     = [(''generateView'', ''Contact''), (''generateCreate'', ''Contact'')]"
  using driver_generates_missing_kinds_only [of example_env "''ext''"
      "\<lparr>error = None,
        sobjects = [(''Account'', \<lparr>view = True, edit = True, create = True\<rparr>),
                    (''Contact'', \<lparr>view = False, edit = True, create = False\<rparr>)]\<rparr>" empty_world]
  by (simp add: missing_ops_def empty_world_def)

end
